theory Spec2Isabelle
  imports Complex_Main
begin

section \<open>An entity-component-system runtime (src/ecs.js)\<close>

text \<open>
  The world of \<^verbatim>\<open>src/ecs.js\<close> is one mutable JavaScript object. Entities are
  objects too: the world's \<^verbatim>\<open>entities\<close> array, every memoized filter list and
  every listener list hold \<^emph>\<open>references\<close> to them, \<^verbatim>\<open>indexOf\<close> and
  \<^verbatim>\<open>includes\<close> compare references, and a component added through one
  reference is seen through all of them. The model therefore keeps an explicit store
  (\<open>heap\<close>) from references to the own properties of the object, and all lists hold
  references.

  Conventions of the model:
  \<^item> entities, \<^verbatim>\<open>world.filters\<close>, the two listener maps and the counter maps of
    the statistics are plain objects \<^verbatim>\<open>{ }\<close>: a read \<^verbatim>\<open>obj[name]\<close> finds the own
    property, and without one the property that \<^verbatim>\<open>Object.prototype\<close> has under
    that name (\<^verbatim>\<open>constructor\<close>, \<^verbatim>\<open>toString\<close>, ...);
  \<^item> numbers that count are integers, with \<^verbatim>\<open>NaN\<close> where the code can produce it;
  \<^item> a \<^verbatim>\<open>for (key in obj)\<close> loop whose body reads and writes \<^verbatim>\<open>obj[key]\<close>
    only is a pointwise update of the map;
  \<^item> the devtools hook (\<^verbatim>\<open>window.__MREINSTEIN_ECS_DEVTOOLS\<close>) is absent.
\<close>

subsection \<open>JavaScript values and truthiness\<close>

datatype jsnum = Num int | NaN

datatype jsval =
    JUndefined
  | JNull
  | JBool bool
  | JNumber jsnum
  | JString string
  | JObject "(string \<times> jsval) list"

text \<open>The value of \<^verbatim>\<open>if (v)\<close>.\<close>

fun truthy :: "jsval \<Rightarrow> bool" where
  "truthy JUndefined = False"
| "truthy JNull = False"
| "truthy (JBool b) = b"
| "truthy (JNumber (Num n)) = (n \<noteq> 0)"
| "truthy (JNumber NaN) = False"
| "truthy (JString s) = (s \<noteq> [])"
| "truthy (JObject ps) = True"

type_synonym ref = nat

text \<open>An entity: the own properties of the object, component name to component data.\<close>

type_synonym entity = "string \<rightharpoonup> jsval"

subsection \<open>Reading and writing a plain object\<close>

text \<open>
  The property names of \<^verbatim>\<open>Object.prototype\<close>, which every object written
  \<^verbatim>\<open>{ }\<close> inherits. All but \<^verbatim>\<open>__proto__\<close> hold a function;
  \<^verbatim>\<open>__proto__\<close> is an accessor that reads as \<^verbatim>\<open>Object.prototype\<close> itself.
  None of them is enumerable, so a \<^verbatim>\<open>for ... in\<close> loop sees own keys only.
\<close>

definition inheritedNames :: "string list" where
  "inheritedNames =
     [''constructor'', ''toString'', ''toLocaleString'', ''valueOf'', ''hasOwnProperty'',
      ''isPrototypeOf'', ''propertyIsEnumerable'', ''__proto__'', ''__defineGetter__'',
      ''__defineSetter__'', ''__lookupGetter__'', ''__lookupSetter__'']"

definition inherited :: "string \<Rightarrow> bool" where
  "inherited n \<longleftrightarrow> n \<in> set inheritedNames"

text \<open>What \<^verbatim>\<open>obj[name]\<close> finds: the own property, the inherited one, or nothing.\<close>

datatype 'a lookup = Own 'a | Inherited | Missing

definition getProp :: "(string \<rightharpoonup> 'a) \<Rightarrow> string \<Rightarrow> 'a lookup" where
  "getProp obj n =
     (case obj n of Some v \<Rightarrow> Own v | None \<Rightarrow> if inherited n then Inherited else Missing)"

text \<open>
  \<^verbatim>\<open>obj[name] = v\<close> for a number or a string \<open>v\<close>. The write makes or changes
  the own property, but for \<^verbatim>\<open>__proto__\<close> without an own property it runs the
  inherited setter, which ignores a value that is not an object.
\<close>

definition setProp :: "(string \<rightharpoonup> 'a) \<Rightarrow> string \<Rightarrow> 'a \<Rightarrow> (string \<rightharpoonup> 'a)" where
  "setProp obj n v = (if n = ''__proto__'' \<and> obj n = None then obj else obj(n \<mapsto> v))"

text \<open>
  \<^verbatim>\<open>entity[componentName]\<close> in a boolean context: the inherited functions and
  objects are truthy, a missing property reads \<^verbatim>\<open>undefined\<close>.
\<close>

definition truthyAt :: "entity \<Rightarrow> string \<Rightarrow> bool" where
  "truthyAt e n = (case getProp e n of Own v \<Rightarrow> truthy v | Inherited \<Rightarrow> True | Missing \<Rightarrow> False)"

text \<open>The test \<^verbatim>\<open>entity[key]\<close> for a key that a \<^verbatim>\<open>for ... in\<close> loop found: an own key.\<close>

definition ownTruthy :: "entity \<Rightarrow> string \<Rightarrow> bool" where
  "ownTruthy e n = (case e n of None \<Rightarrow> False | Some v \<Rightarrow> truthy v)"

subsection \<open>Counters\<close>

text \<open>
  What a counter of the statistics can hold: a number, \<^verbatim>\<open>NaN\<close>, or a string. A
  string comes from \<^verbatim>\<open>+=\<close> on an inherited function (its source text followed by
  what was added); the model does not keep its characters. It is never empty.
\<close>

datatype jscount = CNum int | CNaN | CText

text \<open>\<^verbatim>\<open>!obj[name]\<close> for a counter.\<close>

fun falsyCount :: "jscount lookup \<Rightarrow> bool" where
  "falsyCount (Own (CNum n)) = (n = 0)"
| "falsyCount (Own CNaN) = True"
| "falsyCount (Own CText) = False"
| "falsyCount Inherited = False"
| "falsyCount Missing = True"

text \<open>\<^verbatim>\<open>Number.isInteger(obj[name])\<close>.\<close>

fun isInteger :: "jscount lookup \<Rightarrow> bool" where
  "isInteger (Own (CNum n)) = True"
| "isInteger (Own CNaN) = False"
| "isInteger (Own CText) = False"
| "isInteger Inherited = False"
| "isInteger Missing = False"

text \<open>The value of \<^verbatim>\<open>x.length\<close>: a number, or \<^verbatim>\<open>undefined\<close>.\<close>

datatype jslength = Length nat | NoLength

text \<open>
  \<^verbatim>\<open>obj[name] + k\<close>: addition on numbers, \<^verbatim>\<open>NaN\<close> when a side is
  \<^verbatim>\<open>NaN\<close> or \<^verbatim>\<open>undefined\<close>, concatenation when the left side is a string or
  an inherited function or object.
\<close>

fun plusCount :: "jscount lookup \<Rightarrow> jslength \<Rightarrow> jscount" where
  "plusCount (Own (CNum n)) (Length k) = CNum (n + int k)"
| "plusCount (Own (CNum n)) NoLength = CNaN"
| "plusCount (Own CNaN) k = CNaN"
| "plusCount (Own CText) k = CText"
| "plusCount Inherited k = CText"
| "plusCount Missing k = CNaN"

text \<open>\<^verbatim>\<open>obj[name] - 1\<close>: anything that is not a number becomes \<^verbatim>\<open>NaN\<close>.\<close>

fun minusOne :: "jscount lookup \<Rightarrow> jscount" where
  "minusOne (Own (CNum n)) = CNum (n - 1)"
| "minusOne (Own CNaN) = CNaN"
| "minusOne (Own CText) = CNaN"
| "minusOne Inherited = CNaN"
| "minusOne Missing = CNaN"

subsection \<open>Array and string primitives\<close>

text \<open>\<^verbatim>\<open>Array.prototype.indexOf\<close>: the first index, or -1.\<close>

fun indexOf :: "'a list \<Rightarrow> 'a \<Rightarrow> int" where
  "indexOf [] x = -1"
| "indexOf (y # ys) x =
     (if y = x then 0 else (let i = indexOf ys x in if i < 0 then -1 else i + 1))"

text \<open>\<^verbatim>\<open>arr[i]\<close>, \<^verbatim>\<open>undefined\<close> (here \<open>None\<close>) out of range.\<close>

definition elemAt :: "'a list \<Rightarrow> int \<Rightarrow> 'a option" where
  "elemAt xs i = (if 0 \<le> i \<and> i < int (length xs) then Some (xs ! nat i) else None)"

text \<open>
  Modelled from the spec: \<^verbatim>\<open>removeItems\<close> of the package \<^verbatim>\<open>remove-array-items\<close>,
  which is imported and not part of the sources. Its contract is "remove \<open>count\<close>
  elements starting at \<open>index\<close> from a sequence, shifting subsequent elements down".
  The contract covers an index that is not negative; the one call of the source that
  can pass -1 is a branch of its own in \<open>u_removeEntity\<close>.
\<close>

definition removeItems :: "'a list \<Rightarrow> nat \<Rightarrow> nat \<Rightarrow> 'a list" where
  "removeItems arr startIdx removeCount = take startIdx arr @ drop (startIdx + removeCount) arr"

text \<open>
  Modelled from the spec: \<^verbatim>\<open>orderedInsert\<close> of \<^verbatim>\<open>./ordered-insert.js\<close>, a file of
  the repository that is not among the sources. Its contract is "insert value into an
  ascending- or descending-sorted sequence, preserving sort order"; the one caller
  keeps the queue "sorted from highest to lowest", so the value goes in front of the
  first element that is not greater.
\<close>

fun orderedInsert :: "int list \<Rightarrow> int \<Rightarrow> int list" where
  "orderedInsert [] v = [v]"
| "orderedInsert (x # xs) v = (if x \<le> v then v # x # xs else x # orderedInsert xs v)"

text \<open>\<^verbatim>\<open>str.split(',')\<close>: never empty, \<^verbatim>\<open>"".split(',')\<close> is \<^verbatim>\<open>[""]\<close>.\<close>

fun splitComma :: "string \<Rightarrow> string list" where
  "splitComma [] = [Nil]"
| "splitComma (c # cs) =
     (if c = CHR '','' then [] # splitComma cs
      else (case splitComma cs of [] \<Rightarrow> [c # Nil] | t # ts \<Rightarrow> (c # t) # ts))"

text \<open>\<^verbatim>\<open>names.join(',')\<close>.\<close>

fun joinComma :: "string list \<Rightarrow> string" where
  "joinComma [] = []"
| "joinComma [n] = n"
| "joinComma (n # m # ns) = n @ CHR '','' # joinComma (m # ns)"

fun startsWith :: "string \<Rightarrow> string \<Rightarrow> bool" where
  "startsWith s [] = True"
| "startsWith [] (p # ps) = False"
| "startsWith (c # cs) (p # ps) = (c = p \<and> startsWith cs ps)"

definition endsWith :: "string \<Rightarrow> string \<Rightarrow> bool" where
  "endsWith s p = startsWith (rev s) (rev p)"

fun includesStr :: "string \<Rightarrow> string \<Rightarrow> bool" where
  "includesStr [] p = (p = [])"
| "includesStr (c # cs) p = (startsWith (c # cs) p \<or> includesStr cs p)"

text \<open>
  The separator of the keys in the queue of deferred component removals, and the
  second element of \<^verbatim>\<open>key.split('__@@ECS@@__')\<close> for the key
  \<^verbatim>\<open>idx__@@ECS@@__name\<close>: the name up to its first separator, the whole name
  when it has none (the index is written in digits, so the first separator of the key
  is the one in front of the name).
\<close>

definition separator :: string where
  "separator = ''__@@ECS@@__''"

fun beforeSeparator :: "string \<Rightarrow> string" where
  "beforeSeparator [] = []"
| "beforeSeparator (c # cs) =
     (if startsWith (c # cs) separator then [] else c # beforeSeparator cs)"

subsection \<open>The world\<close>

record systemStats =
  name :: string
  timeElapsed :: real
  sysFilters :: "string \<rightharpoonup> jscount"

text \<open>
  \<open>heap\<close> and \<open>nextRef\<close> are the store behind the references (\<open>nextRef\<close> is the
  next object \<^verbatim>\<open>{ }\<close> that \<^verbatim>\<open>createEntity\<close> allocates); the other fields are the
  fields of the world object, \<^verbatim>\<open>listeners\<close>, \<^verbatim>\<open>removals\<close> and \<^verbatim>\<open>stats\<close>
  flattened. A deferred component removal is the pair of index and name that the
  source writes as the string \<^verbatim>\<open>idx__@@ECS@@__name\<close>; two such strings are
  equal exactly when the pairs are, and the cleanup splits the string again.
  \<^verbatim>\<open>world.systems\<close> holds closures over the world and is passed beside it.
\<close>

record world =
  heap :: "ref \<Rightarrow> entity"
  nextRef :: ref
  entities :: "ref list"
  filters :: "string \<rightharpoonup> ref list"
  added :: "string \<rightharpoonup> ref list"
  removed :: "string \<rightharpoonup> ref list"
  removalsEntities :: "int list"
  removalsComponents :: "(int \<times> string) list"
  entityCount :: int
  componentCount :: "string \<rightharpoonup> jscount"
  filterInvocationCount :: "string \<rightharpoonup> jscount"
  statsSystems :: "systemStats list"
  currentSystem :: nat

datatype error =
    TypeError
  | RemoveItemsOutsideContract

datatype listenerType = Added | Removed

definition createWorld :: world where
  "createWorld =
     \<lparr> heap = (\<lambda>r. Map.empty), nextRef = 0, entities = [], filters = Map.empty,
       added = Map.empty, removed = Map.empty,
       removalsEntities = [], removalsComponents = [],
       entityCount = 0, componentCount = Map.empty, filterInvocationCount = Map.empty,
       statsSystems = [], currentSystem = 0 \<rparr>"

definition createEntity :: "world \<Rightarrow> world \<times> ref" where
  "createEntity w =
     (let r = nextRef w
      in (w\<lparr> heap := (heap w)(r := Map.empty), nextRef := Suc r,
             entities := entities w @ [r], entityCount := entityCount w + 1 \<rparr>, r))"

subsection \<open>The matching predicate\<close>

text \<open>The loop of \<^verbatim>\<open>_matchesFilter\<close> over the tokens, with its three early returns.\<close>

fun matchesTokens :: "string list \<Rightarrow> entity \<Rightarrow> string list \<Rightarrow> bool" where
  "matchesTokens [] e ign = True"
| "matchesTokens (c # cs) e ign =
     (if c \<in> set ign then False
      else if startsWith c ''!'' \<and> truthyAt e (drop 1 c) then False
      else if \<not> startsWith c ''!'' \<and> \<not> truthyAt e c then False
      else matchesTokens cs e ign)"

definition matchesFilter :: "string \<Rightarrow> entity \<Rightarrow> string list \<Rightarrow> bool" where
  "matchesFilter filterId e componentIgnoreList =
     matchesTokens (splitComma filterId) e componentIgnoreList"

text \<open>\<^verbatim>\<open>_hasComponent\<close>.\<close>

definition hasComponent :: "string \<Rightarrow> string \<Rightarrow> bool" where
  "hasComponent filterId component \<longleftrightarrow>
     filterId = component \<or>
     startsWith filterId (component @ '','') \<or>
     endsWith filterId ('','' @ component) \<or>
     includesStr filterId ('','' @ component @ '','')"

subsection \<open>Adding a component\<close>

text \<open>The default parameter \<^verbatim>\<open>componentData={}\<close> replaces \<^verbatim>\<open>undefined\<close>.\<close>

definition defaultData :: "jsval \<Rightarrow> jsval" where
  "defaultData d = (if d = JUndefined then JObject [] else d)"

text \<open>The body of the loop over \<^verbatim>\<open>world.filters\<close> in \<^verbatim>\<open>addComponentToEntity\<close>.\<close>

definition addToFilter :: "string \<Rightarrow> entity \<Rightarrow> ref \<Rightarrow> ref list \<Rightarrow> ref list" where
  "addToFilter filterId ent r flt =
     (let matches = matchesFilter filterId ent [];
          idx = indexOf flt r
      in if idx \<ge> 0 then (if \<not> matches then removeItems flt (nat idx) 1 else flt)
         else (if matches then flt @ [r] else flt))"

text \<open>The body of the loop over \<^verbatim>\<open>world.listeners.added\<close>.\<close>

definition addToAdded :: "string \<Rightarrow> entity \<Rightarrow> ref \<Rightarrow> string \<Rightarrow> ref list \<Rightarrow> ref list" where
  "addToAdded filterId ent r componentName lst =
     (let matches = matchesFilter filterId ent [] \<and> \<not> matchesFilter filterId ent [componentName]
      in if matches \<and> r \<notin> set lst then lst @ [r] else lst)"

text \<open>
  \<^verbatim>\<open>addComponentToEntity\<close>. Behind the guard the entity has no truthy property
  under the name, own or inherited, so the write of the data makes or changes an own
  property.
\<close>

definition addComponentToEntity :: "world \<Rightarrow> ref \<Rightarrow> string \<Rightarrow> jsval \<Rightarrow> world" where
  "addComponentToEntity w r componentName d =
     (let componentData = defaultData d
      in if truthyAt (heap w r) componentName then w
         else
          (let cc0 = (if \<not> isInteger (getProp (componentCount w) componentName)
                      then setProp (componentCount w) componentName (CNum 0)
                      else componentCount w);
               cc1 = setProp cc0 componentName (plusCount (getProp cc0 componentName) (Length 1));
               ent = (heap w r)(componentName \<mapsto> componentData)
           in w\<lparr> heap := (heap w)(r := ent),
                 componentCount := cc1,
                 filters := (\<lambda>k. map_option (addToFilter k ent r) (filters w k)),
                 added := (\<lambda>k. map_option (addToAdded k ent r componentName) (added w k)) \<rparr>))"

subsection \<open>Removing components and entities\<close>

text \<open>The body of the loop over \<^verbatim>\<open>world.filters\<close> in \<^verbatim>\<open>_removeComponent\<close>.\<close>

definition removeFromFilter :: "string \<Rightarrow> entity \<Rightarrow> ref \<Rightarrow> string \<Rightarrow> ref list \<Rightarrow> ref list" where
  "removeFromFilter filterId ent r componentName flt =
     (if matchesFilter filterId ent [] \<and> r \<notin> set flt then flt @ [r]
      else if hasComponent filterId componentName then
        (let filterIdx = indexOf flt r
         in if filterIdx \<ge> 0 then removeItems flt (nat filterIdx) 1 else flt)
      else flt)"

text \<open>
  \<^verbatim>\<open>_removeComponent\<close>. The cleanup passes \<^verbatim>\<open>world.entities[entityIdx]\<close>, which is
  \<^verbatim>\<open>undefined\<close> out of range: \<^verbatim>\<open>entity[componentName]\<close> then throws a TypeError.
\<close>

definition u_removeComponent :: "world \<Rightarrow> ref option \<Rightarrow> string \<Rightarrow> error + world" where
  "u_removeComponent w entity componentName =
     (case entity of
        None \<Rightarrow> Inl TypeError
      | Some r \<Rightarrow>
          (let cc = (if truthyAt (heap w r) componentName
                     then setProp (componentCount w) componentName
                            (minusOne (getProp (componentCount w) componentName))
                     else componentCount w);
               ent = (heap w r)(componentName := None)
           in Inr (w\<lparr> heap := (heap w)(r := ent),
                       componentCount := cc,
                       filters := (\<lambda>k. map_option (removeFromFilter k ent r componentName) (filters w k)) \<rparr>)))"

text \<open>The body of the loop over \<^verbatim>\<open>world.filters\<close> in \<^verbatim>\<open>_removeEntity\<close>.\<close>

definition dropFromFilter :: "ref \<Rightarrow> ref list \<Rightarrow> ref list" where
  "dropFromFilter r flt =
     (let idx = indexOf flt r in if idx \<ge> 0 then removeItems flt (nat idx) 1 else flt)"

text \<open>
  \<^verbatim>\<open>_removeEntity\<close>. With \<^verbatim>\<open>undefined\<close> for the entity the \<^verbatim>\<open>for ... in\<close> loop
  has no iteration, \<^verbatim>\<open>indexOf\<close> is -1 and \<^verbatim>\<open>removeItems\<close> is called outside its
  contract; the same holds for an object that is not in \<^verbatim>\<open>world.entities\<close>.
\<close>

definition u_removeEntity :: "world \<Rightarrow> ref option \<Rightarrow> error + world" where
  "u_removeEntity w entity =
     (case entity of
        None \<Rightarrow> Inl RemoveItemsOutsideContract
      | Some r \<Rightarrow>
          (let cc = (\<lambda>n. if ownTruthy (heap w r) n
                          then setProp (componentCount w) n (minusOne (getProp (componentCount w) n)) n
                          else componentCount w n);
               entityIdx = indexOf (entities w) r
           in if entityIdx < 0 then Inl RemoveItemsOutsideContract
              else Inr (w\<lparr> componentCount := cc,
                            entities := removeItems (entities w) (nat entityIdx) 1,
                            filters := (\<lambda>k. map_option (dropFromFilter r) (filters w k)) \<rparr>)))"

text \<open>The body of the loop over \<^verbatim>\<open>world.listeners.removed\<close> in \<^verbatim>\<open>removeComponentFromEntity\<close>.\<close>

definition componentRemoved :: "string \<Rightarrow> entity \<Rightarrow> ref \<Rightarrow> string \<Rightarrow> ref list \<Rightarrow> ref list" where
  "componentRemoved filterId ent r componentName lst =
     (if matchesFilter filterId ent [] \<and> \<not> matchesFilter filterId ent [componentName]
      then (if r \<notin> set lst then lst @ [r] else lst)
      else lst)"

definition removeComponentFromEntity :: "world \<Rightarrow> ref \<Rightarrow> string \<Rightarrow> bool \<Rightarrow> error + world" where
  "removeComponentFromEntity w r componentName deferredRemoval =
     (if \<not> truthyAt (heap w r) componentName then Inr w
      else
       (let w1 = w\<lparr> removed := (\<lambda>k. map_option (componentRemoved k (heap w r) r componentName) (removed w k)) \<rparr>
        in if deferredRemoval then
             (let idx = indexOf (entities w1) r;
                  removalKey = (idx, componentName)
              in if removalKey \<notin> set (removalsComponents w1)
                 then Inr (w1\<lparr> removalsComponents := removalsComponents w1 @ [removalKey] \<rparr>)
                 else Inr w1)
           else u_removeComponent w1 (Some r) componentName))"

text \<open>The body of the loop over \<^verbatim>\<open>world.listeners.removed\<close> in \<^verbatim>\<open>removeEntity\<close>.\<close>

definition entityRemoved :: "string \<Rightarrow> entity \<Rightarrow> ref \<Rightarrow> ref list \<Rightarrow> ref list" where
  "entityRemoved filterId ent r lst =
     (let matches = matchesFilter filterId ent []
      in if matches \<and> r \<notin> set lst then lst @ [r] else lst)"

definition removeEntity :: "world \<Rightarrow> ref \<Rightarrow> bool \<Rightarrow> error + world" where
  "removeEntity w r deferredRemoval =
     (let idx = indexOf (entities w) r
      in if idx < 0 then Inr w
         else
          (let w1 = w\<lparr> removed := (\<lambda>k. map_option (entityRemoved k (heap w r) r) (removed w k)) \<rparr>
           in if deferredRemoval then
                (if idx \<notin> set (removalsEntities w1)
                 then Inr (w1\<lparr> removalsEntities := orderedInsert (removalsEntities w1) idx,
                               entityCount := entityCount w1 - 1 \<rparr>)
                 else Inr w1)
              else u_removeEntity w1 (Some r)))"

subsection \<open>Queries\<close>

text \<open>
  \<^verbatim>\<open>getEntities\<close> returns what it reads from \<^verbatim>\<open>world.filters\<close> or from a
  listener map: an array, or, for a key that is the name of an inherited property and
  has no own one, the inherited function or object. The model returns the new world
  and that value (of an array, its contents).
\<close>

datatype queryResult = EntityList "ref list" | InheritedValue | UndefinedValue

definition resultOf :: "ref list lookup \<Rightarrow> queryResult" where
  "resultOf p = (case p of Own l \<Rightarrow> EntityList l | Inherited \<Rightarrow> InheritedValue | Missing \<Rightarrow> UndefinedValue)"

text \<open>\<^verbatim>\<open>world.entities.filter((e) => _matchesFilter(filterId, e))\<close>.\<close>

definition scan :: "world \<Rightarrow> string \<Rightarrow> ref list" where
  "scan w filterId = filter (\<lambda>r. matchesFilter filterId (heap w r) []) (entities w)"

text \<open>
  The \<^verbatim>\<open>length\<close> of an inherited property: the number of parameters of the
  function, and \<^verbatim>\<open>undefined\<close> for the object behind \<^verbatim>\<open>__proto__\<close>.
\<close>

definition inheritedLength :: "string \<Rightarrow> jslength" where
  "inheritedLength n =
     (if n \<in> set [''toString'', ''toLocaleString'', ''valueOf''] then Length 0
      else if n \<in> set [''constructor'', ''hasOwnProperty'', ''isPrototypeOf'',
                         ''propertyIsEnumerable'', ''__lookupGetter__'', ''__lookupSetter__'']
           then Length 1
      else if n \<in> set [''__defineGetter__'', ''__defineSetter__''] then Length 2
      else NoLength)"

text \<open>\<^verbatim>\<open>world.filters[filterId].length\<close>; the key is never missing where it is read.\<close>

definition lengthOf :: "string \<Rightarrow> ref list lookup \<Rightarrow> jslength" where
  "lengthOf filterId p =
     (case p of Own l \<Rightarrow> Length (length l) | Inherited \<Rightarrow> inheritedLength filterId
      | Missing \<Rightarrow> NoLength)"

definition countSystemFilter :: "string \<Rightarrow> jslength \<Rightarrow> systemStats \<Rightarrow> systemStats" where
  "countSystemFilter filterId len s =
     (let f0 = (if falsyCount (getProp (sysFilters s) filterId)
                then setProp (sysFilters s) filterId (CNum 0) else sysFilters s)
      in s\<lparr> sysFilters := setProp f0 filterId (plusCount (getProp f0 filterId) len) \<rparr>)"

definition getEntities :: "world \<Rightarrow> string list \<Rightarrow> listenerType option \<Rightarrow> world \<times> queryResult" where
  "getEntities w componentNames listenerType =
     (let filterId = joinComma componentNames;
          fs = (case getProp (filters w) filterId of
                  Missing \<Rightarrow> (filters w)(filterId \<mapsto> scan w filterId)
                | Own l \<Rightarrow> filters w
                | Inherited \<Rightarrow> filters w);
          fic0 = (if falsyCount (getProp (filterInvocationCount w) filterId)
                  then setProp (filterInvocationCount w) filterId (CNum 0)
                  else filterInvocationCount w);
          fic1 = setProp fic0 filterId (plusCount (getProp fic0 filterId) (Length 1));
          systemIdx = currentSystem w;
          ss = (if systemIdx < length (statsSystems w)
                then (statsSystems w)[systemIdx :=
                       countSystemFilter filterId (lengthOf filterId (getProp fs filterId))
                         (statsSystems w ! systemIdx)]
                else statsSystems w);
          w1 = w\<lparr> filters := fs, filterInvocationCount := fic1, statsSystems := ss \<rparr>
      in case listenerType of
           Some Added \<Rightarrow>
             (case getProp (added w1) filterId of
                Missing \<Rightarrow>
                  (let lst = scan w1 filterId
                   in (w1\<lparr> added := (added w1)(filterId \<mapsto> lst) \<rparr>, EntityList lst))
              | Own lst \<Rightarrow> (w1, EntityList lst)
              | Inherited \<Rightarrow> (w1, InheritedValue))
         | Some Removed \<Rightarrow>
             (case getProp (removed w1) filterId of
                Missing \<Rightarrow> (w1\<lparr> removed := (removed w1)(filterId \<mapsto> []) \<rparr>, EntityList [])
              | Own lst \<Rightarrow> (w1, EntityList lst)
              | Inherited \<Rightarrow> (w1, InheritedValue))
         | None \<Rightarrow> (w1, resultOf (getProp (filters w1) filterId)))"

subsection \<open>The end of a frame\<close>

definition emptyListeners :: "world \<Rightarrow> world" where
  "emptyListeners w =
     w\<lparr> added := (\<lambda>k. map_option (\<lambda>l. []) (added w k)),
        removed := (\<lambda>k. map_option (\<lambda>l. []) (removed w k)) \<rparr>"

text \<open>
  The two loops of \<^verbatim>\<open>cleanup\<close>; a throw ends the loop and the cleanup. The
  first loop splits each key at the separator and takes the first two parts.
\<close>

fun flushComponents :: "world \<Rightarrow> (int \<times> string) list \<Rightarrow> error + world" where
  "flushComponents w [] = Inr w"
| "flushComponents w ((entityIdx, queuedName) # ks) =
     (case u_removeComponent w (elemAt (entities w) entityIdx) (beforeSeparator queuedName) of
        Inl err \<Rightarrow> Inl err
      | Inr w' \<Rightarrow> flushComponents w' ks)"

fun flushEntities :: "world \<Rightarrow> int list \<Rightarrow> error + world" where
  "flushEntities w [] = Inr w"
| "flushEntities w (entityIdx # ks) =
     (case u_removeEntity w (elemAt (entities w) entityIdx) of
        Inl err \<Rightarrow> Inl err
      | Inr w' \<Rightarrow> flushEntities w' ks)"

text \<open>
  \<^verbatim>\<open>cleanup\<close>. The reset of the statistics is scheduled with \<^verbatim>\<open>setTimeout\<close> and
  runs after the cleanup has returned; it is \<open>resetStats\<close> below.
\<close>

definition cleanup :: "world \<Rightarrow> error + world" where
  "cleanup w =
     (let w0 = emptyListeners w
      in case flushComponents w0 (removalsComponents w0) of
           Inl err \<Rightarrow> Inl err
         | Inr w1 \<Rightarrow>
             (let w2 = w1\<lparr> removalsComponents := [] \<rparr>
              in case flushEntities w2 (removalsEntities w2) of
                   Inl err \<Rightarrow> Inl err
                 | Inr w3 \<Rightarrow> Inr (w3\<lparr> removalsEntities := [] \<rparr>)))"

definition resetStats :: "world \<Rightarrow> world" where
  "resetStats w =
     w\<lparr> filterInvocationCount := (\<lambda>k. map_option (\<lambda>n. CNum 0) (filterInvocationCount w k)),
        statsSystems := map (\<lambda>s. s\<lparr> timeElapsed := 0,
                                     sysFilters := (\<lambda>k. map_option (\<lambda>n. CNum 0) (sysFilters s k)) \<rparr>)
                            (statsSystems w),
        currentSystem := 0 \<rparr>"

subsection \<open>Systems and the update phase\<close>






subsection \<open>Concrete inputs\<close>

text \<open>
  A world with one entity that holds the component \<open>a\<close> only, built through the
  public interface.
\<close>

definition worldA :: world where
  "worldA = (let (w, r) = createEntity createWorld in addComponentToEntity w r ''a'' JUndefined)"

text \<open>A world with one entity (reference 0) that holds no component.\<close>

definition worldE :: world where
  "worldE = fst (createEntity createWorld)"





text \<open>A world with five entities, the references 0 to 4.\<close>

definition worldFive :: world where
  "worldFive = fst (createEntity (fst (createEntity (fst (createEntity (fst (createEntity
                 (fst (createEntity createWorld)))))))))"






subsection \<open>Invariants\<close>

text \<open>
  The entities of a world are pairwise distinct objects, all allocated before
  \<open>nextRef\<close>: \<^verbatim>\<open>createEntity\<close> is the only writer that pushes onto
  \<^verbatim>\<open>world.entities\<close>, and it pushes a new object.
\<close>

definition wellFormed :: "world \<Rightarrow> bool" where
  "wellFormed w \<longleftrightarrow> distinct (entities w) \<and> list_all (\<lambda>r. r < nextRef w) (entities w)"

text \<open>
  The list that a key which is not an inherited name has after a query: its own list,
  or the scan of the entities when it has none.
\<close>

definition listOf :: "world \<Rightarrow> string \<Rightarrow> ref list" where
  "listOf w K = (case filters w K of None \<Rightarrow> scan w K | Some l \<Rightarrow> l)"

text \<open>A memoized list has no duplicates.\<close>

definition filterDistinct :: "world \<Rightarrow> string \<Rightarrow> bool" where
  "filterDistinct w K = (case filters w K of None \<Rightarrow> True | Some l \<Rightarrow> distinct l)"

text \<open>
  What the mutations keep of the filter invariant: a memoized list has no duplicates,
  its members are entities of the world that match the key, and a matching entity
  that it lacks has no own property (it was created after the first query and has
  not been touched).
\<close>

definition filterTracks :: "world \<Rightarrow> string \<Rightarrow> bool" where
  "filterTracks w K =
     (case filters w K of
        None \<Rightarrow> True
      | Some l \<Rightarrow>
          distinct l \<and>
          list_all (\<lambda>r. r \<in> set (entities w) \<and> matchesFilter K (heap w r) []) l \<and>
          list_all (\<lambda>r. \<not> matchesFilter K (heap w r) [] \<or> r \<in> set l \<or> heap w r = Map.empty)
            (entities w))"

text \<open>
  The filter invariant in the words of the specification: the memoized list of a key
  "exactly equals" the entities of the world that match the key, without duplicates.
  A key that was never queried has no list.
\<close>

definition filterCorrect :: "world \<Rightarrow> string \<Rightarrow> bool" where
  "filterCorrect w K =
     (case filters w K of
        None \<Rightarrow> True
      | Some l \<Rightarrow> distinct l \<and>
                 set l = set (filter (\<lambda>r. matchesFilter K (heap w r) []) (entities w)))"

text \<open>
  A component name of the plain kind: it has no comma, does not start with \<open>!\<close>,
  is not the name of an inherited property, and does not contain the separator of the
  removal queue.
\<close>

definition plainName :: "string \<Rightarrow> bool" where
  "plainName n \<longleftrightarrow>
     CHR '','' \<notin> set n \<and> \<not> startsWith n ''!'' \<and> \<not> inherited n \<and>
     \<not> includesStr n separator"

text \<open>
  The worlds that the public interface builds when its calls return normally:
  \<^verbatim>\<open>createWorld\<close>, and then any sequence of \<^verbatim>\<open>createEntity\<close>,
  \<^verbatim>\<open>getEntities\<close>, \<^verbatim>\<open>removeEntity\<close>, \<^verbatim>\<open>cleanup\<close> (and the reset of the
  statistics that it schedules), and of \<^verbatim>\<open>addComponentToEntity\<close> and
  \<^verbatim>\<open>removeComponentFromEntity\<close> on entities of the world. The names of the
  components that are removed are plain: \<^verbatim>\<open>_removeComponent\<close> takes the entity out
  of the list of every key that mentions the removed name as it is written, also when
  the entity still matches the key, as it can for a name of another kind.
\<close>

inductive built :: "world \<Rightarrow> bool" where
  created: "built createWorld"
| entity: "built w \<Longrightarrow> built (fst (createEntity w))"
| component: "built w \<Longrightarrow> r \<in> set (entities w) \<Longrightarrow> built (addComponentToEntity w r n d)"
| query: "built w \<Longrightarrow> built (fst (getEntities w ns lt))"
| componentRemoval:
    "built w \<Longrightarrow> r \<in> set (entities w) \<Longrightarrow> plainName n \<Longrightarrow>
     removeComponentFromEntity w r n dfr = Inr w' \<Longrightarrow> built w'"
| entityRemoval: "built w \<Longrightarrow> removeEntity w r dfr = Inr w' \<Longrightarrow> built w'"
| frame: "built w \<Longrightarrow> cleanup w = Inr w' \<Longrightarrow> built w'"
| stats: "built w \<Longrightarrow> built (resetStats w)"

text \<open>The names in the queue of deferred component removals are plain.\<close>

definition queuePlain :: "world \<Rightarrow> bool" where
  "queuePlain w \<longleftrightarrow> list_all (\<lambda>(i, n). plainName n) (removalsComponents w)"

section \<open>Properties\<close>

subsection \<open>Arrays and plain objects\<close>

lemma indexOf_neg_iff: "indexOf xs x < 0 \<longleftrightarrow> x \<notin> set xs"
  by (induction xs) (auto simp: Let_def)

lemma indexOf_nonneg_iff: "0 \<le> indexOf xs x \<longleftrightarrow> x \<in> set xs"
  using indexOf_neg_iff [of xs x] by linarith

lemma removeItems_indexOf:
  "x \<in> set xs \<Longrightarrow> removeItems xs (nat (indexOf xs x)) 1 = remove1 x xs"
proof (induction xs)
  case Nil
  then show ?case by simp
next
  case (Cons y ys)
  show ?case
  proof (cases "y = x")
    case True
    then show ?thesis by (simp add: removeItems_def)
  next
    case False
    with Cons.prems have m: "x \<in> set ys" by simp
    then have i: "0 \<le> indexOf ys x" by (simp add: indexOf_nonneg_iff)
    have "removeItems ys (nat (indexOf ys x)) 1 = remove1 x ys"
      using Cons.IH m by simp
    with False i show ?thesis
      by (simp add: removeItems_def Let_def nat_add_distrib)
  qed
qed

lemma dropFromFilter_remove1: "dropFromFilter r flt = remove1 r flt"
  using removeItems_indexOf [of r flt] indexOf_nonneg_iff [of flt r]
  by (auto simp: dropFromFilter_def Let_def remove1_idem)

lemma addToFilter_eq:
  "addToFilter K e r flt =
     (if matchesFilter K e [] then (if r \<in> set flt then flt else flt @ [r]) else remove1 r flt)"
  using removeItems_indexOf [of r flt] indexOf_nonneg_iff [of flt r]
  by (auto simp: addToFilter_def Let_def remove1_idem)

lemma getProp_ordinary:
  "\<not> inherited n \<Longrightarrow> getProp obj n = (case obj n of None \<Rightarrow> Missing | Some v \<Rightarrow> Own v)"
  by (simp add: getProp_def split: option.split)

lemma getProp_own: "obj n = Some v \<Longrightarrow> getProp obj n = Own v"
  by (simp add: getProp_def)

lemma inherited_proto: "inherited ''__proto__''"
  by (simp add: inherited_def inheritedNames_def)

lemma setProp_ordinary: "\<not> inherited n \<Longrightarrow> setProp obj n v = obj(n \<mapsto> v)"
  using inherited_proto by (auto simp: setProp_def)

lemma setProp_other: "k \<noteq> n \<Longrightarrow> setProp obj n v k = obj k"
  by (simp add: setProp_def)

lemma truthyAt_ordinary: "\<not> inherited n \<Longrightarrow> truthyAt e n = ownTruthy e n"
  by (simp add: truthyAt_def ownTruthy_def getProp_ordinary split: option.split)

lemma truthyAt_own: "e n = Some v \<Longrightarrow> truthyAt e n = truthy v"
  by (simp add: truthyAt_def getProp_own)

lemma inherited_no_comma: "inherited n \<Longrightarrow> CHR '','' \<notin> set n"
  by (auto simp: inherited_def inheritedNames_def)

lemma inherited_no_bang: "inherited n \<Longrightarrow> \<not> startsWith n ''!''"
  by (auto simp: inherited_def inheritedNames_def)

lemma splitComma_single: "CHR '','' \<notin> set n \<Longrightarrow> splitComma n = [n]"
  by (induction n) (auto split: list.splits)

lemma token_ordinary_key:
  assumes "n \<in> set (splitComma K)" and "\<not> inherited n"
  shows "\<not> inherited K"
proof
  assume "inherited K"
  then have "splitComma K = [K]"
    using inherited_no_comma splitComma_single by blast
  with assms(1) have "n = K" by simp
  with assms(2) \<open>inherited K\<close> show False by simp
qed

subsection \<open>Removals that have nothing to remove\<close>




subsection \<open>Truthiness of component data\<close>

lemma matchesTokens_positive:
  "matchesTokens ts e ign \<Longrightarrow> t \<in> set ts \<Longrightarrow> \<not> startsWith t ''!'' \<Longrightarrow> truthyAt e t"
  by (induction ts) (auto split: if_splits)

text \<open>
  C4, as stated, fails: data that is falsy is stored, but the duplicate guard reads it
  as "no component", so a second add with the same name overwrites the data and counts
  the component again.
\<close>

theorem duplicate_add_counterexample:
  "heap (addComponentToEntity worldE 0 ''a'' (JNumber (Num 0))) 0 ''a'' = Some (JNumber (Num 0)) \<and>
   heap (addComponentToEntity (addComponentToEntity worldE 0 ''a'' (JNumber (Num 0))) 0 ''a'' (JObject [])) 0 ''a''
     = Some (JObject []) \<and>
   componentCount (addComponentToEntity worldE 0 ''a'' (JNumber (Num 0))) ''a'' = Some (CNum 1) \<and>
   componentCount (addComponentToEntity (addComponentToEntity worldE 0 ''a'' (JNumber (Num 0))) 0 ''a'' (JObject [])) ''a''
     = Some (CNum 2)"
  by (simp add: worldE_def createEntity_def createWorld_def addComponentToEntity_def
        truthyAt_def getProp_def setProp_def inherited_def inheritedNames_def defaultData_def
        Let_def)

text \<open>
  C4, amended. When the component is truthy after the first call (which holds when the
  data of the first call, \<^verbatim>\<open>undefined\<close> replaced by \<^verbatim>\<open>{}\<close>, is truthy, or the
  entity already had a truthy component of that name), the second call with the same
  name returns the world unchanged, whatever data it is given: the entity's
  components, the counters and everything else.
\<close>

theorem duplicate_add_is_noop:
  "truthy (defaultData d1) \<or> truthyAt (heap w r) n \<Longrightarrow>
   addComponentToEntity (addComponentToEntity w r n d1) r n d2 = addComponentToEntity w r n d1"
  by (cases "truthyAt (heap w r) n")
     (simp_all add: addComponentToEntity_def truthyAt_own Let_def)

theorem duplicate_add_is_noop_witness:
  "addComponentToEntity (addComponentToEntity worldE 0 ''a'' (JBool True)) 0 ''a'' (JNumber (Num 7))
     = addComponentToEntity worldE 0 ''a'' (JBool True)"
  using duplicate_add_is_noop [of "JBool True" worldE 0 "''a''" "JNumber (Num 7)"]
  by (simp add: defaultData_def)





subsection \<open>Queries and malformed filter keys\<close>

lemma matchesTokens_empty_token:
  "[] \<in> set ts \<Longrightarrow> \<not> truthyAt e [] \<Longrightarrow> \<not> matchesTokens ts e ign"
  using matchesTokens_positive [of ts e ign "[]"] by auto

lemma not_inherited_empty: "\<not> inherited []"
  by (simp add: inherited_def inheritedNames_def)

lemma getEntities_filters_any:
  "filters (fst (getEntities w ns lt)) =
     (case getProp (filters w) (joinComma ns) of
        Missing \<Rightarrow> (filters w)(joinComma ns \<mapsto> scan w (joinComma ns))
      | Own l \<Rightarrow> filters w
      | Inherited \<Rightarrow> filters w)"
  by (cases lt; (cases "the lt")?)
     (simp_all add: getEntities_def Let_def split: lookup.split)

lemma getEntities_filters:
  "\<not> inherited (joinComma ns) \<Longrightarrow>
   filters (fst (getEntities w ns lt)) = (filters w)(joinComma ns \<mapsto> listOf w (joinComma ns))"
  by (auto simp: getEntities_filters_any getProp_ordinary listOf_def split: option.split)

lemma getEntities_heap: "heap (fst (getEntities w ns lt)) = heap w"
  by (cases lt; (cases "the lt")?)
     (simp_all add: getEntities_def Let_def split: lookup.split)

lemma getEntities_entities: "entities (fst (getEntities w ns lt)) = entities w"
  by (cases lt; (cases "the lt")?)
     (simp_all add: getEntities_def Let_def split: lookup.split)

lemma getEntities_plain:
  "\<not> inherited (joinComma ns) \<Longrightarrow>
   snd (getEntities w ns None) = EntityList (listOf w (joinComma ns))"
  by (simp add: getEntities_def Let_def getProp_ordinary resultOf_def listOf_def
      split: option.split)

text \<open>
  C6, as stated, fails for the bare \<open>!\<close>: the token starts with \<open>!\<close>, the rest of
  it is the empty name, and an entity without a component of the empty name passes the
  negated test. The key \<open>!\<close> matches the entity of \<open>worldA\<close>, and the query
  memoizes it.
\<close>

theorem bare_bang_counterexample:
  "matchesFilter ''!'' (heap worldA 0) [] \<and>
   snd (getEntities worldA [''!''] None) = EntityList [0] \<and>
   filters (fst (getEntities worldA [''!''] None)) ''!'' = Some [0]"
  by (simp add: worldA_def createEntity_def createWorld_def addComponentToEntity_def
        getEntities_def scan_def resultOf_def matchesFilter_def truthyAt_def getProp_def
        setProp_def inherited_def inheritedNames_def defaultData_def Let_def)

text \<open>
  C6, amended. A filter key with an empty token matches no entity that has no truthy
  component under the empty name, under any ignore list; the predicate returns a
  boolean and raises nothing. Such an entity is never placed in the memoized list of
  such a key: not by the loops of \<^verbatim>\<open>addComponentToEntity\<close> and
  \<^verbatim>\<open>_removeComponent\<close>, and not by the scan of the first query.
\<close>

theorem empty_token_matches_nothing:
  "[] \<in> set (splitComma K) \<and> \<not> truthyAt e [] \<longrightarrow>
     \<not> matchesFilter K e ign \<and>
     (r \<notin> set flt \<longrightarrow> r \<notin> set (addToFilter K e r flt) \<and> r \<notin> set (removeFromFilter K e r n flt)) \<and>
     (K = joinComma ns \<and> filters w K = None \<and> heap w r = e \<longrightarrow>
        (\<exists>l. snd (getEntities w ns None) = EntityList l \<and> r \<notin> set l) \<and>
        (\<forall>l. filters (fst (getEntities w ns lt)) K = Some l \<longrightarrow> r \<notin> set l))"
proof (intro impI, elim conjE)
  assume a: "[] \<in> set (splitComma K)" "\<not> truthyAt e []"
  have ok: "\<not> inherited K"
    using token_ordinary_key [OF a(1) not_inherited_empty] .
  have m: "\<not> matchesFilter K e ign'" for ign'
    using matchesTokens_empty_token [OF a] by (simp add: matchesFilter_def)
  have f: "r \<notin> set (addToFilter K e r flt) \<and> r \<notin> set (removeFromFilter K e r n flt)" if "r \<notin> set flt"
    using that m [of "[]"] indexOf_neg_iff [of flt r]
    by (simp add: addToFilter_def removeFromFilter_def Let_def)
  have g: "(\<exists>l. snd (getEntities w ns None) = EntityList l \<and> r \<notin> set l) \<and>
        (\<forall>l. filters (fst (getEntities w ns lt)) K = Some l \<longrightarrow> r \<notin> set l)"
    if "K = joinComma ns \<and> filters w K = None \<and> heap w r = e"
  proof -
    have "r \<notin> set (listOf w K)"
      using that m [of "[]"] by (auto simp: listOf_def scan_def)
    then show ?thesis
      using that ok by (simp add: getEntities_filters getEntities_plain)
  qed
  from m f g show "\<not> matchesFilter K e ign \<and>
     (r \<notin> set flt \<longrightarrow> r \<notin> set (addToFilter K e r flt) \<and> r \<notin> set (removeFromFilter K e r n flt)) \<and>
     (K = joinComma ns \<and> filters w K = None \<and> heap w r = e \<longrightarrow>
        (\<exists>l. snd (getEntities w ns None) = EntityList l \<and> r \<notin> set l) \<and>
        (\<forall>l. filters (fst (getEntities w ns lt)) K = Some l \<longrightarrow> r \<notin> set l))"
    by blast
qed

theorem empty_token_matches_nothing_witness:
  "[] \<in> set (splitComma ''a,'') \<and> \<not> truthyAt (heap worldA 0) [] \<and>
   \<not> matchesFilter ''a,'' (heap worldA 0) [] \<and>
   (\<exists>l. snd (getEntities worldA [''a'', ''''] None) = EntityList l \<and> 0 \<notin> set l)"
proof -
  have a: "[] \<in> set (splitComma ''a,'')" by simp
  have b: "\<not> truthyAt (heap worldA 0) []"
    by (simp add: worldA_def createEntity_def createWorld_def addComponentToEntity_def
        truthyAt_def getProp_def inherited_def inheritedNames_def defaultData_def Let_def)
  have c: "''a,'' = joinComma [''a'', ''''] \<and> filters worldA ''a,'' = None"
    by (simp add: worldA_def createEntity_def createWorld_def addComponentToEntity_def
        truthyAt_def getProp_def inherited_def inheritedNames_def defaultData_def Let_def)
  show ?thesis
    using empty_token_matches_nothing [of "''a,''" "heap worldA 0" "[]" 0 "[]" "''a''" "[''a'', '''']" worldA None] a b c
    by blast
qed

subsection \<open>The added listener\<close>


lemma truthyAt_delete:
  "truthyAt (e(n := None)) c \<longleftrightarrow> (if c = n then inherited n else truthyAt e c)"
  by (simp add: truthyAt_def getProp_def)

lemma matchesTokens_without:
  "\<not> startsWith n ''!'' \<Longrightarrow> \<not> inherited n \<Longrightarrow> matchesTokens ts e [] \<Longrightarrow>
   matchesTokens ts (e(n := None)) [] \<longleftrightarrow> n \<notin> set ts"
  by (induction ts) (auto simp: truthyAt_delete split: if_splits)




subsection \<open>Deferred removal of entities\<close>

lemma orderedInsert_position:
  "orderedInsert q v = takeWhile (\<lambda>x. v < x) q @ v # dropWhile (\<lambda>x. v < x) q"
  by (induction q) auto

lemma set_orderedInsert: "set (orderedInsert q v) = insert v (set q)"
  by (induction q) auto

lemma sorted_orderedInsert:
  "sorted_wrt (\<ge>) q \<Longrightarrow> sorted_wrt (\<ge>) (orderedInsert q v)"
  by (induction q) (auto simp: set_orderedInsert)

lemma distinct_orderedInsert:
  "distinct q \<Longrightarrow> v \<notin> set q \<Longrightarrow> distinct (orderedInsert q v)"
  by (induction q) (auto simp: set_orderedInsert)

lemma entityRemoved_idem:
  "entityRemoved k e r (entityRemoved k e r lst) = entityRemoved k e r lst"
  by (simp add: entityRemoved_def)

lemma removeEntity_deferred:
  assumes "r \<in> set (entities w)"
  shows "\<exists>w'. removeEntity w r True = Inr w' \<and>
     removalsEntities w' =
       (if indexOf (entities w) r \<in> set (removalsEntities w) then removalsEntities w
        else orderedInsert (removalsEntities w) (indexOf (entities w) r)) \<and>
     entityCount w' =
       (if indexOf (entities w) r \<in> set (removalsEntities w) then entityCount w
        else entityCount w - 1) \<and>
     entities w' = entities w \<and> filters w' = filters w \<and> heap w' = heap w \<and>
     removalsComponents w' = removalsComponents w \<and>
     removeEntity w' r True = Inr w'"
proof -
  define idx where "idx = indexOf (entities w) r"
  define w1 where "w1 = w\<lparr> removed := (\<lambda>k. map_option (entityRemoved k (heap w r) r) (removed w k)) \<rparr>"
  define w' where "w' = (if idx \<notin> set (removalsEntities w)
                 then w1\<lparr> removalsEntities := orderedInsert (removalsEntities w) idx,
                               entityCount := entityCount w - 1 \<rparr>
                 else w1)"
  have i: "\<not> idx < 0"
    using assms indexOf_neg_iff [of "entities w" r] by (simp add: idx_def)
  have r: "removeEntity w r True = Inr w'"
    using i by (simp add: removeEntity_def Let_def idx_def [symmetric] w1_def w'_def)
  have q: "removalsEntities w' = (if idx \<in> set (removalsEntities w) then removalsEntities w
        else orderedInsert (removalsEntities w) idx)"
    by (simp add: w'_def w1_def)
  have c: "entityCount w' = (if idx \<in> set (removalsEntities w) then entityCount w else entityCount w - 1)"
    by (simp add: w'_def w1_def)
  have f: "entities w' = entities w" "filters w' = filters w" "heap w' = heap w"
      "removalsComponents w' = removalsComponents w"
    by (simp_all add: w'_def w1_def)
  have m: "idx \<in> set (removalsEntities w')"
    by (simp add: q set_orderedInsert)
  have rm: "(\<lambda>k. map_option (entityRemoved k (heap w' r) r) (removed w' k)) = removed w'"
    by (rule ext) (simp add: w'_def w1_def option.map_comp comp_def entityRemoved_idem)
  have "w'\<lparr> removed := (\<lambda>k. map_option (entityRemoved k (heap w' r) r) (removed w' k)) \<rparr> = w'"
    by (simp add: rm)
  then have again: "removeEntity w' r True = Inr w'"
    using i m by (simp add: removeEntity_def Let_def f idx_def [symmetric])
  show ?thesis
    using r q c f again unfolding idx_def [symmetric] by blast
qed

text \<open>
  C8. For an entity of \<open>entities\<close>, the deferred \<open>removeEntity\<close> returns
  normally. When the index of the entity is already queued, the queue and
  \<open>entityCount\<close> are unchanged; otherwise the index is put into the queue behind
  the elements greater than it and in front of the rest, and \<open>entityCount\<close> goes
  down by one. A queue sorted from highest to lowest stays so, a queue without
  duplicates stays so. \<open>entities\<close>, every filter list and the entity's components
  are unchanged, and a second deferred removal of the same entity changes nothing at
  all.
\<close>

theorem deferred_removeEntity_enqueues:
  assumes "r \<in> set (entities w)"
  shows "\<exists>w'. removeEntity w r True = Inr w' \<and>
     removalsEntities w' =
       (if indexOf (entities w) r \<in> set (removalsEntities w) then removalsEntities w
        else takeWhile (\<lambda>x. indexOf (entities w) r < x) (removalsEntities w) @
             indexOf (entities w) r # dropWhile (\<lambda>x. indexOf (entities w) r < x) (removalsEntities w)) \<and>
     entityCount w' =
       (if indexOf (entities w) r \<in> set (removalsEntities w) then entityCount w
        else entityCount w - 1) \<and>
     (sorted_wrt (\<ge>) (removalsEntities w) \<longrightarrow> sorted_wrt (\<ge>) (removalsEntities w')) \<and>
     (distinct (removalsEntities w) \<longrightarrow> distinct (removalsEntities w')) \<and>
     entities w' = entities w \<and> filters w' = filters w \<and> heap w' = heap w \<and>
     removeEntity w' r True = Inr w'"
proof -
  obtain w' where r: "removeEntity w r True = Inr w'"
    and q: "removalsEntities w' =
       (if indexOf (entities w) r \<in> set (removalsEntities w) then removalsEntities w
        else orderedInsert (removalsEntities w) (indexOf (entities w) r))"
    and c: "entityCount w' =
       (if indexOf (entities w) r \<in> set (removalsEntities w) then entityCount w
        else entityCount w - 1)"
    and f: "entities w' = entities w" "filters w' = filters w" "heap w' = heap w"
    and again: "removeEntity w' r True = Inr w'"
    using removeEntity_deferred [OF assms] by blast
  have s: "sorted_wrt (\<ge>) (removalsEntities w) \<longrightarrow> sorted_wrt (\<ge>) (removalsEntities w')"
    by (simp add: q sorted_orderedInsert)
  have d: "distinct (removalsEntities w) \<longrightarrow> distinct (removalsEntities w')"
    by (simp add: q distinct_orderedInsert)
  show ?thesis
    using r q c s d f again unfolding orderedInsert_position [symmetric] by blast
qed

theorem deferred_removeEntity_enqueues_witness:
  "0 \<in> set (entities worldA) \<and>
   (\<exists>w'. removeEntity worldA 0 True = Inr w' \<and> removalsEntities w' = [0] \<and> entityCount w' = 0 \<and>
         entities w' = [0] \<and> removeEntity w' 0 True = Inr w')"
proof -
  have 1: "entities worldA = [0]" "removalsEntities worldA = []" "entityCount worldA = 1"
    by (simp_all add: worldA_def createEntity_def createWorld_def addComponentToEntity_def
        truthyAt_def getProp_def setProp_def inherited_def inheritedNames_def defaultData_def
        Let_def)
  have 2: "0 \<in> set (entities worldA)"
    by (simp add: 1)
  show ?thesis
    using deferred_removeEntity_enqueues [OF 2] 1 by auto
qed

lemma flushEntities_step:
  "elemAt (entities w) i = Some r \<Longrightarrow> r \<in> set (entities w) \<Longrightarrow>
   flushEntities w (i # ks) =
     flushEntities (w\<lparr> componentCount := (\<lambda>n. if ownTruthy (heap w r) n
                          then setProp (componentCount w) n (minusOne (getProp (componentCount w) n)) n
                          else componentCount w n),
                       entities := remove1 r (entities w),
                       filters := (\<lambda>k. map_option (remove1 r) (filters w k)) \<rparr>) ks"
  using indexOf_neg_iff [of "entities w" r] removeItems_indexOf [of r "entities w"]
  by (simp add: u_removeEntity_def Let_def dropFromFilter_remove1 [abs_def])

lemma flushEntities_entities:
  "entities w = e0 # e1 # e2 # e3 # rest \<Longrightarrow> distinct (entities w) \<Longrightarrow>
   \<exists>w3. flushEntities w [3, 1] = Inr w3 \<and> entities w3 = e0 # e2 # rest"
proof -
  assume es: "entities w = e0 # e1 # e2 # e3 # rest" and d: "distinct (entities w)"
  define wa where "wa = w\<lparr> componentCount := (\<lambda>n. if ownTruthy (heap w e3) n
                          then setProp (componentCount w) n (minusOne (getProp (componentCount w) n)) n
                          else componentCount w n),
                       entities := remove1 e3 (entities w),
                       filters := (\<lambda>k. map_option (remove1 e3) (filters w k)) \<rparr>"
  define wb where "wb = wa\<lparr> componentCount := (\<lambda>n. if ownTruthy (heap wa e1) n
                          then setProp (componentCount wa) n (minusOne (getProp (componentCount wa) n)) n
                          else componentCount wa n),
                       entities := remove1 e1 (entities wa),
                       filters := (\<lambda>k. map_option (remove1 e1) (filters wa k)) \<rparr>"
  have ea: "entities wa = e0 # e1 # e2 # rest"
    using es d by (auto simp: wa_def)
  have eb: "entities wb = e0 # e2 # rest"
    using ea es d by (auto simp: wb_def)
  have "flushEntities w [3, 1] = flushEntities wa [1]"
    unfolding wa_def by (rule flushEntities_step) (simp_all add: es elemAt_def)
  also have "\<dots> = flushEntities wb []"
    unfolding wb_def by (rule flushEntities_step) (simp_all add: ea elemAt_def)
  finally show ?thesis
    using eb by simp
qed

text \<open>
  C2. In a world with at least four entities (pairwise distinct references) and both
  removal queues empty, the deferred removal of the entities at the indices 3 and 1,
  in either order of the two calls, leaves the queue \<open>[3, 1]\<close>; the cleanup then
  returns normally and \<open>entities\<close> is the old list without exactly these two: the
  entities of the indices 0 and 2 and of every index from 4 on, once each, in their
  old order.
\<close>

theorem deferred_removals_flush:
  assumes "4 \<le> length (entities w)" and "distinct (entities w)"
    and "removalsEntities w = []" and "removalsComponents w = []"
    and "(a, b) = (entities w ! 3, entities w ! 1) \<or> (a, b) = (entities w ! 1, entities w ! 3)"
  shows "\<exists>w1 w2 w3. removeEntity w a True = Inr w1 \<and> removeEntity w1 b True = Inr w2 \<and>
           removalsEntities w2 = [3, 1] \<and>
           cleanup w2 = Inr w3 \<and>
           entities w3 = entities w ! 0 # entities w ! 2 # drop 4 (entities w) \<and>
           entities w3 = filter (\<lambda>e. e \<noteq> entities w ! 3 \<and> e \<noteq> entities w ! 1) (entities w) \<and>
           removalsEntities w3 = []"
proof -
  obtain e0 e1 e2 e3 rest where es: "entities w = e0 # e1 # e2 # e3 # rest"
  proof -
    from assms(1) obtain e0 t0 where "entities w = e0 # t0" "3 \<le> length t0"
      by (cases "entities w") auto
    moreover then obtain e1 t1 where "t0 = e1 # t1" "2 \<le> length t1"
      by (cases t0) auto
    moreover then obtain e2 t2 where "t1 = e2 # t2" "1 \<le> length t2"
      by (cases t1) auto
    moreover then obtain e3 t3 where "t2 = e3 # t3"
      by (cases t2) auto
    ultimately show thesis using that by blast
  qed
  have d: "e0 \<noteq> e1" "e0 \<noteq> e2" "e0 \<noteq> e3" "e1 \<noteq> e2" "e1 \<noteq> e3" "e2 \<noteq> e3"
     "e0 \<notin> set rest" "e1 \<notin> set rest" "e2 \<notin> set rest" "e3 \<notin> set rest" "distinct rest"
    using assms(2) es by auto
  have i: "indexOf (entities w) e3 = 3" "indexOf (entities w) e1 = 1"
    using d by (simp_all add: es Let_def)
  have ab: "a = e3 \<and> b = e1 \<or> a = e1 \<and> b = e3"
    using assms(5) by (auto simp: es)
  have ain: "a \<in> set (entities w)"
    using ab es by auto
  obtain w1 where w1: "removeEntity w a True = Inr w1"
    and q1: "removalsEntities w1 = orderedInsert [] (indexOf (entities w) a)"
    and e1: "entities w1 = entities w" and c1: "removalsComponents w1 = []"
    using removeEntity_deferred [OF ain] assms(3,4) by auto
  have bin: "b \<in> set (entities w1)"
    using ab es e1 by auto
  have q1': "removalsEntities w1 = (if a = e3 then [3] else [1])"
    using ab i d by (auto simp: q1)
  obtain w2 where w2: "removeEntity w1 b True = Inr w2"
    and q2: "removalsEntities w2 =
       (if indexOf (entities w) b \<in> set (removalsEntities w1) then removalsEntities w1
        else orderedInsert (removalsEntities w1) (indexOf (entities w) b))"
    and e2: "entities w2 = entities w" and c2: "removalsComponents w2 = []"
    using removeEntity_deferred [OF bin] e1 c1 by auto
  have q2': "removalsEntities w2 = [3, 1]"
    using ab i d by (auto simp: q2 q1')
  define w0 where "w0 = (emptyListeners w2)\<lparr> removalsComponents := [] \<rparr>"
  have e0: "entities w0 = e0 # e1 # e2 # e3 # rest" and q0: "removalsEntities w0 = [3, 1]"
    using e2 q2' es by (simp_all add: w0_def emptyListeners_def)
  have d0: "distinct (entities w0)"
    using e0 es assms(2) by simp
  have fc: "flushComponents (emptyListeners w2) (removalsComponents (emptyListeners w2)) = Inr (emptyListeners w2)"
    using c2 by (simp add: emptyListeners_def)
  obtain w3 where w3: "flushEntities w0 [3, 1] = Inr w3" and e3: "entities w3 = e0 # e2 # rest"
    using flushEntities_entities [OF e0 d0] by blast
  have cl: "cleanup w2 = Inr (w3\<lparr> removalsEntities := [] \<rparr>)"
    using fc w3 q0 by (simp add: cleanup_def Let_def w0_def [symmetric])
  have f: "filter (\<lambda>e. e \<noteq> entities w ! 3 \<and> e \<noteq> entities w ! 1) (entities w) = e0 # e2 # rest"
    using d by (auto simp: es filter_id_conv)
  show ?thesis
    using w1 w2 q2' cl e3 f by (simp add: es)
qed


theorem deferred_removals_flush_witness:
  "(\<exists>w1 w2 w3. removeEntity worldFive 3 True = Inr w1 \<and> removeEntity w1 1 True = Inr w2 \<and>
       cleanup w2 = Inr w3 \<and> entities w3 = [0, 2, 4]) \<and>
   (\<exists>w1 w2 w3. removeEntity worldFive 1 True = Inr w1 \<and> removeEntity w1 3 True = Inr w2 \<and>
       cleanup w2 = Inr w3 \<and> entities w3 = [0, 2, 4])"
proof -
  have e: "entities worldFive = [0, 1, 2, 3, 4]"
    and q: "removalsEntities worldFive = []" "removalsComponents worldFive = []"
    by (simp_all add: worldFive_def createEntity_def createWorld_def Let_def)
  have 1: "4 \<le> length (entities worldFive)" "distinct (entities worldFive)"
    by (simp_all add: e)
  have a: "(3, 1) = (entities worldFive ! 3, entities worldFive ! 1) \<or>
           (3, 1) = (entities worldFive ! 1, entities worldFive ! 3)"
    by (simp add: e)
  have b: "(1, 3) = (entities worldFive ! 3, entities worldFive ! 1) \<or>
           (1, 3) = (entities worldFive ! 1, entities worldFive ! 3)"
    by (simp add: e)
  show ?thesis
    using deferred_removals_flush [OF 1 q a] deferred_removals_flush [OF 1 q b]
    by (simp add: e) blast
qed

subsection \<open>Statistics of queries\<close>

lemma getEntities_fic_any:
  "filterInvocationCount (fst (getEntities w ns lt)) =
     (let fic0 = (if falsyCount (getProp (filterInvocationCount w) (joinComma ns))
                  then setProp (filterInvocationCount w) (joinComma ns) (CNum 0)
                  else filterInvocationCount w)
      in setProp fic0 (joinComma ns) (plusCount (getProp fic0 (joinComma ns)) (Length 1)))"
  by (cases lt; (cases "the lt")?)
     (simp_all add: getEntities_def Let_def split: lookup.split)

lemma getEntities_statsSystems_any:
  "statsSystems (fst (getEntities w ns lt)) =
     (if currentSystem w < length (statsSystems w)
      then (statsSystems w)[currentSystem w :=
             countSystemFilter (joinComma ns)
               (lengthOf (joinComma ns) (getProp (filters (fst (getEntities w ns lt))) (joinComma ns)))
               (statsSystems w ! currentSystem w)]
      else statsSystems w)"
  by (cases lt; (cases "the lt")?)
     (simp_all add: getEntities_def Let_def split: lookup.split)

lemma bump_ordinary:
  fixes m :: "string \<rightharpoonup> jscount" and K :: string
  assumes "\<not> inherited K"
  defines "m0 \<equiv> (if falsyCount (getProp m K) then setProp m K (CNum 0) else m)"
  shows "m K = None \<Longrightarrow> setProp m0 K (plusCount (getProp m0 K) len) K = Some (plusCount (Own (CNum 0)) len)"
    and "m K = Some CNaN \<Longrightarrow> setProp m0 K (plusCount (getProp m0 K) len) K = Some (plusCount (Own (CNum 0)) len)"
    and "m K = Some (CNum n) \<Longrightarrow> setProp m0 K (plusCount (getProp m0 K) len) K = Some (plusCount (Own (CNum n)) len)"
    and "m K = Some CText \<Longrightarrow> setProp m0 K (plusCount (getProp m0 K) len) K = Some CText"
  using assms(1) by (simp_all add: m0_def getProp_ordinary setProp_ordinary)

lemma getEntities_fic:
  assumes "\<not> inherited (joinComma ns)"
  shows "filterInvocationCount w (joinComma ns) = None \<Longrightarrow>
           filterInvocationCount (fst (getEntities w ns lt)) (joinComma ns) = Some (CNum 1)"
    and "filterInvocationCount w (joinComma ns) = Some CNaN \<Longrightarrow>
           filterInvocationCount (fst (getEntities w ns lt)) (joinComma ns) = Some (CNum 1)"
    and "filterInvocationCount w (joinComma ns) = Some (CNum n) \<Longrightarrow>
           filterInvocationCount (fst (getEntities w ns lt)) (joinComma ns) = Some (CNum (n + 1))"
    and "filterInvocationCount w (joinComma ns) = Some CText \<Longrightarrow>
           filterInvocationCount (fst (getEntities w ns lt)) (joinComma ns) = Some CText"
  using bump_ordinary [OF assms, where m = "filterInvocationCount w" and len = "Length 1"]
  by (simp_all add: getEntities_fic_any Let_def)

lemma getEntities_sysFilters:
  fixes w :: world and ns :: "string list" and lt :: "listenerType option"
  assumes "\<not> inherited (joinComma ns)" and "currentSystem w < length (statsSystems w)"
  defines "old \<equiv> sysFilters (statsSystems w ! currentSystem w) (joinComma ns)"
    and "new \<equiv> sysFilters (statsSystems (fst (getEntities w ns lt)) ! currentSystem w) (joinComma ns)"
    and "k \<equiv> int (length (listOf w (joinComma ns)))"
  shows "old = None \<Longrightarrow> new = Some (CNum k)"
    and "old = Some CNaN \<Longrightarrow> new = Some (CNum k)"
    and "old = Some (CNum c) \<Longrightarrow> new = Some (CNum (c + k))"
    and "old = Some CText \<Longrightarrow> new = Some CText"
proof -
  have len: "lengthOf (joinComma ns) (getProp (filters (fst (getEntities w ns lt))) (joinComma ns))
      = Length (length (listOf w (joinComma ns)))"
    using assms(1) by (simp add: getEntities_filters getProp_own lengthOf_def)
  have new: "new = setProp (if falsyCount (getProp (sysFilters (statsSystems w ! currentSystem w)) (joinComma ns))
                 then setProp (sysFilters (statsSystems w ! currentSystem w)) (joinComma ns) (CNum 0)
                 else sysFilters (statsSystems w ! currentSystem w)) (joinComma ns)
            (plusCount (getProp (if falsyCount (getProp (sysFilters (statsSystems w ! currentSystem w)) (joinComma ns))
                 then setProp (sysFilters (statsSystems w ! currentSystem w)) (joinComma ns) (CNum 0)
                 else sysFilters (statsSystems w ! currentSystem w)) (joinComma ns))
               (Length (length (listOf w (joinComma ns))))) (joinComma ns)"
    using assms(2) len
    by (simp add: new_def getEntities_statsSystems_any [of w ns lt] countSystemFilter_def Let_def)
  note b = bump_ordinary [OF assms(1), where m = "sysFilters (statsSystems w ! currentSystem w)"
      and len = "Length (length (listOf w (joinComma ns)))"]
  show "old = None \<Longrightarrow> new = Some (CNum k)"
    using b(1) by (simp add: new old_def k_def)
  show "old = Some CNaN \<Longrightarrow> new = Some (CNum k)"
    using b(2) by (simp add: new old_def k_def)
  show "old = Some (CNum c) \<Longrightarrow> new = Some (CNum (c + k))"
    using b(3) [where n = c] by (simp add: new old_def k_def)
  show "old = Some CText \<Longrightarrow> new = Some CText"
    using b(4) by (simp add: new old_def)
qed




text \<open>
  The counters of a key that is not an inherited name hold numbers: a query never
  makes a string or \<^verbatim>\<open>NaN\<close> of them.
\<close>

lemma getEntities_keeps_numbers:
  assumes "\<not> inherited K"
    and "filterInvocationCount w K = None \<or> (\<exists>n. filterInvocationCount w K = Some (CNum n))"
  shows "filterInvocationCount (fst (getEntities w ns lt)) K = None \<or>
         (\<exists>n. filterInvocationCount (fst (getEntities w ns lt)) K = Some (CNum n))"
proof (cases "K = joinComma ns")
  case True
  with assms show ?thesis
    using getEntities_fic(1,3) [where ns = ns and w = w and lt = lt] by auto
next
  case False
  then have "filterInvocationCount (fst (getEntities w ns lt)) K = filterInvocationCount w K"
    by (simp add: getEntities_fic_any Let_def setProp_other)
  with assms(2) show ?thesis by simp
qed

lemma getEntities_keeps_system_numbers:
  assumes "\<not> inherited K" and "i < length (statsSystems w)"
    and "sysFilters (statsSystems w ! i) K = None \<or> (\<exists>n. sysFilters (statsSystems w ! i) K = Some (CNum n))"
  shows "sysFilters (statsSystems (fst (getEntities w ns lt)) ! i) K = None \<or>
         (\<exists>n. sysFilters (statsSystems (fst (getEntities w ns lt)) ! i) K = Some (CNum n))"
proof (cases "i = currentSystem w")
  case False
  then have "statsSystems (fst (getEntities w ns lt)) ! i = statsSystems w ! i"
    by (simp add: getEntities_statsSystems_any [of w ns lt])
  with assms(3) show ?thesis by simp
next
  case True
  show ?thesis
  proof (cases "K = joinComma ns")
    case k: True
    from assms(3) show ?thesis
      using getEntities_sysFilters(1,3) [where ns = ns and w = w and lt = lt] assms(1,2) True k
      by auto
  next
    case False
    then have "sysFilters (statsSystems (fst (getEntities w ns lt)) ! i) K = sysFilters (statsSystems w ! i) K"
      using assms(2) True
      by (simp add: getEntities_statsSystems_any [of w ns lt] countSystemFilter_def Let_def
          setProp_other)
    with assms(3) show ?thesis by simp
  qed
qed

subsection \<open>Entities stay distinct references\<close>

text \<open>
  Every operation keeps \<open>wellFormed\<close>, so the entities of a world built through
  the interface are pairwise distinct.
\<close>

lemma wellFormed_createWorld: "wellFormed createWorld"
  by (simp add: wellFormed_def createWorld_def)

lemma wellFormed_createEntity: "wellFormed w \<Longrightarrow> wellFormed (fst (createEntity w))"
  by (auto simp: wellFormed_def createEntity_def Let_def list_all_iff)

lemma wellFormed_same:
  "entities w' = entities w \<Longrightarrow> nextRef w' = nextRef w \<Longrightarrow> wellFormed w' = wellFormed w"
  by (simp add: wellFormed_def)

lemma getEntities_nextRef: "nextRef (fst (getEntities w ns lt)) = nextRef w"
  by (cases lt; (cases "the lt")?)
     (simp_all add: getEntities_def Let_def split: lookup.split)

lemma wellFormed_getEntities: "wellFormed w \<Longrightarrow> wellFormed (fst (getEntities w ns lt))"
  using wellFormed_same [OF getEntities_entities getEntities_nextRef] by simp

lemma wellFormed_addComponentToEntity:
  "wellFormed w \<Longrightarrow> wellFormed (addComponentToEntity w r n d)"
  by (simp add: wellFormed_def addComponentToEntity_def Let_def)

lemma wellFormed_u_removeComponent:
  "wellFormed w \<Longrightarrow> u_removeComponent w e n = Inr w' \<Longrightarrow> wellFormed w'"
  by (cases e) (auto simp: wellFormed_def u_removeComponent_def Let_def)

lemma wellFormed_removeComponentFromEntity:
  "wellFormed w \<Longrightarrow> removeComponentFromEntity w r n dfr = Inr w' \<Longrightarrow> wellFormed w'"
  by (auto simp: wellFormed_def removeComponentFromEntity_def u_removeComponent_def Let_def
      split: if_splits)

lemma wellFormed_u_removeEntity:
  assumes "wellFormed w" and "u_removeEntity w e = Inr w'"
  shows "wellFormed w'"
proof (cases e)
  case None
  with assms(2) show ?thesis by (simp add: u_removeEntity_def)
next
  case (Some r)
  with assms(2) have "entities w' = removeItems (entities w) (nat (indexOf (entities w) r)) 1"
    and "nextRef w' = nextRef w" and "r \<in> set (entities w)"
    using indexOf_neg_iff [of "entities w" r]
    by (auto simp: u_removeEntity_def Let_def split: if_splits)
  then have "entities w' = remove1 r (entities w)" "nextRef w' = nextRef w"
    using removeItems_indexOf [of r "entities w"] by simp_all
  with assms(1) show ?thesis
    by (auto simp: wellFormed_def list_all_iff)
qed

lemma wellFormed_removeEntity:
  assumes "wellFormed w" and "removeEntity w r dfr = Inr w'"
  shows "wellFormed w'"
proof (cases "indexOf (entities w) r < 0 \<or> dfr")
  case True
  with assms show ?thesis
    by (auto simp: removeEntity_def wellFormed_def Let_def split: if_splits)
next
  case False
  define w1 where "w1 = w\<lparr> removed := (\<lambda>k. map_option (entityRemoved k (heap w r) r) (removed w k)) \<rparr>"
  have "u_removeEntity w1 (Some r) = Inr w'"
    using False assms(2) by (simp add: removeEntity_def Let_def w1_def)
  moreover have "wellFormed w1"
    using assms(1) by (simp add: wellFormed_def w1_def)
  ultimately show ?thesis by (rule wellFormed_u_removeEntity [rotated])
qed

lemma wellFormed_flushComponents:
  "wellFormed w \<Longrightarrow> flushComponents w ks = Inr w' \<Longrightarrow> wellFormed w'"
proof (induction ks arbitrary: w)
  case Nil
  then show ?case by simp
next
  case (Cons k ks)
  obtain i n where k: "k = (i, n)" by (cases k)
  from Cons.prems(2) obtain w1 where
    u: "u_removeComponent w (elemAt (entities w) i) (beforeSeparator n) = Inr w1" and f: "flushComponents w1 ks = Inr w'"
    by (auto simp: k split: sum.splits)
  show ?case
    using Cons.IH [OF wellFormed_u_removeComponent [OF Cons.prems(1) u] f] .
qed

lemma wellFormed_flushEntities:
  "wellFormed w \<Longrightarrow> flushEntities w ks = Inr w' \<Longrightarrow> wellFormed w'"
proof (induction ks arbitrary: w)
  case Nil
  then show ?case by simp
next
  case (Cons i ks)
  from Cons.prems(2) obtain w1 where
    u: "u_removeEntity w (elemAt (entities w) i) = Inr w1" and f: "flushEntities w1 ks = Inr w'"
    by (auto split: sum.splits)
  show ?case
    using Cons.IH [OF wellFormed_u_removeEntity [OF Cons.prems(1) u] f] .
qed

lemma wellFormed_cleanup:
  assumes "wellFormed w" and "cleanup w = Inr w'"
  shows "wellFormed w'"
proof -
  define w0 where "w0 = emptyListeners w"
  have 0: "wellFormed w0"
    using assms(1) by (simp add: w0_def emptyListeners_def wellFormed_def)
  from assms(2) obtain w1 where 1: "flushComponents w0 (removalsComponents w0) = Inr w1"
    by (auto simp: cleanup_def Let_def w0_def split: sum.splits)
  with assms(2) obtain w3 where
    3: "flushEntities (w1\<lparr> removalsComponents := [] \<rparr>) (removalsEntities (w1\<lparr> removalsComponents := [] \<rparr>)) = Inr w3"
    and w': "w' = w3\<lparr> removalsEntities := [] \<rparr>"
    by (auto simp: cleanup_def Let_def w0_def split: sum.splits)
  have "wellFormed w1"
    using wellFormed_flushComponents [OF 0 1] .
  then have "wellFormed (w1\<lparr> removalsComponents := [] \<rparr>)"
    by (simp add: wellFormed_def)
  then have "wellFormed w3"
    using wellFormed_flushEntities [OF _ 3] by simp
  then show ?thesis
    by (simp add: w' wellFormed_def)
qed


subsection \<open>Memoized lists have no duplicates\<close>

text \<open>
  Every operation keeps the memoized lists free of duplicates, whatever its arguments:
  the scan goes over distinct entities, and the loops push an entity only when
  \<^verbatim>\<open>indexOf\<close> or \<^verbatim>\<open>includes\<close> has not found it.
\<close>

lemma filterDistinct_createWorld: "filterDistinct createWorld K"
  by (simp add: filterDistinct_def createWorld_def)

lemma filterDistinct_createEntity: "filterDistinct w K \<Longrightarrow> filterDistinct (fst (createEntity w)) K"
  by (simp add: filterDistinct_def createEntity_def Let_def)

lemma filterDistinct_getEntities:
  assumes "distinct (entities w)" and "filterDistinct w K"
  shows "filterDistinct (fst (getEntities w ns lt)) K"
  using assms
  by (cases "getProp (filters w) (joinComma ns)")
     (auto simp: filterDistinct_def getEntities_filters_any scan_def split: option.splits)

lemma filterDistinct_addComponentToEntity:
  "filterDistinct w K \<Longrightarrow> filterDistinct (addComponentToEntity w r n d) K"
  by (cases "filters w K")
     (auto simp: filterDistinct_def addComponentToEntity_def Let_def addToFilter_eq)

lemma removeFromFilter_distinct: "distinct l \<Longrightarrow> distinct (removeFromFilter K e r n l)"
  using removeItems_indexOf [of r l] indexOf_nonneg_iff [of l r]
  by (auto simp: removeFromFilter_def Let_def)

lemma filterDistinct_u_removeComponent:
  "filterDistinct w K \<Longrightarrow> u_removeComponent w e n = Inr w' \<Longrightarrow> filterDistinct w' K"
  by (cases e; cases "filters w K")
     (auto simp: filterDistinct_def u_removeComponent_def Let_def removeFromFilter_distinct)

lemma filterDistinct_removeComponentFromEntity:
  assumes "filterDistinct w K" and "removeComponentFromEntity w r n dfr = Inr w'"
  shows "filterDistinct w' K"
proof (cases "truthyAt (heap w r) n \<and> \<not> dfr")
  case False
  with assms show ?thesis
    by (auto simp: removeComponentFromEntity_def filterDistinct_def Let_def split: if_splits)
next
  case True
  define w1 where "w1 = w\<lparr> removed := (\<lambda>k. map_option (componentRemoved k (heap w r) r n) (removed w k)) \<rparr>"
  have "u_removeComponent w1 (Some r) n = Inr w'"
    using True assms(2) by (simp add: removeComponentFromEntity_def Let_def w1_def)
  moreover have "filterDistinct w1 K"
    using assms(1) by (simp add: filterDistinct_def w1_def)
  ultimately show ?thesis by (rule filterDistinct_u_removeComponent [rotated])
qed

lemma filterDistinct_u_removeEntity:
  "filterDistinct w K \<Longrightarrow> u_removeEntity w e = Inr w' \<Longrightarrow> filterDistinct w' K"
  by (cases e; cases "filters w K")
     (auto simp: filterDistinct_def u_removeEntity_def Let_def dropFromFilter_remove1
        split: if_splits)

lemma filterDistinct_removeEntity:
  assumes "filterDistinct w K" and "removeEntity w r dfr = Inr w'"
  shows "filterDistinct w' K"
proof (cases "indexOf (entities w) r < 0 \<or> dfr")
  case True
  with assms show ?thesis
    by (auto simp: removeEntity_def filterDistinct_def Let_def split: if_splits)
next
  case False
  define w1 where "w1 = w\<lparr> removed := (\<lambda>k. map_option (entityRemoved k (heap w r) r) (removed w k)) \<rparr>"
  have "u_removeEntity w1 (Some r) = Inr w'"
    using False assms(2) by (simp add: removeEntity_def Let_def w1_def)
  moreover have "filterDistinct w1 K"
    using assms(1) by (simp add: filterDistinct_def w1_def)
  ultimately show ?thesis by (rule filterDistinct_u_removeEntity [rotated])
qed

lemma filterDistinct_flushComponents:
  "filterDistinct w K \<Longrightarrow> flushComponents w ks = Inr w' \<Longrightarrow> filterDistinct w' K"
proof (induction ks arbitrary: w)
  case Nil
  then show ?case by simp
next
  case (Cons k ks)
  obtain i n where k: "k = (i, n)" by (cases k)
  from Cons.prems(2) obtain w1 where
    u: "u_removeComponent w (elemAt (entities w) i) (beforeSeparator n) = Inr w1" and f: "flushComponents w1 ks = Inr w'"
    by (auto simp: k split: sum.splits)
  show ?case
    using Cons.IH [OF filterDistinct_u_removeComponent [OF Cons.prems(1) u] f] .
qed

lemma filterDistinct_flushEntities:
  "filterDistinct w K \<Longrightarrow> flushEntities w ks = Inr w' \<Longrightarrow> filterDistinct w' K"
proof (induction ks arbitrary: w)
  case Nil
  then show ?case by simp
next
  case (Cons i ks)
  from Cons.prems(2) obtain w1 where
    u: "u_removeEntity w (elemAt (entities w) i) = Inr w1" and f: "flushEntities w1 ks = Inr w'"
    by (auto split: sum.splits)
  show ?case
    using Cons.IH [OF filterDistinct_u_removeEntity [OF Cons.prems(1) u] f] .
qed

lemma filterDistinct_cleanup:
  assumes "filterDistinct w K" and "cleanup w = Inr w'"
  shows "filterDistinct w' K"
proof -
  define w0 where "w0 = emptyListeners w"
  have 0: "filterDistinct w0 K"
    using assms(1) by (simp add: w0_def emptyListeners_def filterDistinct_def)
  from assms(2) obtain w1 where 1: "flushComponents w0 (removalsComponents w0) = Inr w1"
    by (auto simp: cleanup_def Let_def w0_def split: sum.splits)
  with assms(2) obtain w3 where
    3: "flushEntities (w1\<lparr> removalsComponents := [] \<rparr>) (removalsEntities (w1\<lparr> removalsComponents := [] \<rparr>)) = Inr w3"
    and w': "w' = w3\<lparr> removalsEntities := [] \<rparr>"
    by (auto simp: cleanup_def Let_def w0_def split: sum.splits)
  have "filterDistinct w1 K"
    using filterDistinct_flushComponents [OF 0 1] .
  then have "filterDistinct (w1\<lparr> removalsComponents := [] \<rparr>) K"
    by (simp add: filterDistinct_def)
  then have "filterDistinct w3 K"
    using filterDistinct_flushEntities [OF _ 3] by simp
  then show ?thesis
    by (simp add: w' filterDistinct_def)
qed

subsection \<open>Component names and tokens\<close>

text \<open>
  \<^verbatim>\<open>_hasComponent\<close> compares substrings of the key. For a component name without
  a comma it says exactly that the name is one of the tokens of the key.
\<close>

lemma startsWith_iff: "startsWith s p \<longleftrightarrow> (\<exists>u. s = p @ u)"
  by (induction s p rule: startsWith.induct) auto

lemma endsWith_iff: "endsWith s p \<longleftrightarrow> (\<exists>u. s = u @ p)"
proof -
  have "(\<exists>u. rev s = rev p @ u) \<longleftrightarrow> (\<exists>u. s = u @ p)"
  proof
    assume "\<exists>u. rev s = rev p @ u"
    then obtain u where "rev s = rev p @ u" ..
    then have "rev (rev s) = rev (rev p @ u)" by simp
    then have "s = rev u @ p" by simp
    then show "\<exists>u. s = u @ p" ..
  next
    assume "\<exists>u. s = u @ p"
    then obtain u where "s = u @ p" ..
    then have "rev s = rev p @ rev u" by simp
    then show "\<exists>u. rev s = rev p @ u" ..
  qed
  then show ?thesis by (simp add: endsWith_def startsWith_iff)
qed

lemma startsWith_token:
  "CHR '','' \<notin> set t \<Longrightarrow> CHR '','' \<notin> set c \<Longrightarrow>
   startsWith (t @ CHR '','' # J) (c @ '','') \<longleftrightarrow> t = c"
proof (induction t arbitrary: c)
  case Nil
  then show ?case by (cases c) auto
next
  case (Cons x t)
  then show ?case by (cases c) auto
qed

lemma includesStr_token:
  "CHR '','' \<notin> set t \<Longrightarrow>
   includesStr (t @ CHR '','' # J) (CHR '','' # p) \<longleftrightarrow>
     startsWith J p \<or> includesStr J (CHR '','' # p)"
  by (induction t) auto

lemma endsWith_token:
  "CHR '','' \<notin> set t \<Longrightarrow>
   endsWith (t @ CHR '','' # J) (CHR '','' # c) \<longleftrightarrow> J = c \<or> endsWith J (CHR '','' # c)"
proof (induction t)
  case Nil
  show ?case
  proof
    assume "endsWith ([] @ CHR '','' # J) (CHR '','' # c)"
    then obtain u where u: "CHR '','' # J = u @ CHR '','' # c"
      by (auto simp: endsWith_iff)
    show "J = c \<or> endsWith J (CHR '','' # c)"
    proof (cases u)
      case Nil
      with u show ?thesis by simp
    next
      case (Cons y u')
      with u have "J = u' @ CHR '','' # c" by simp
      then show ?thesis by (auto simp: endsWith_iff)
    qed
  next
    assume "J = c \<or> endsWith J (CHR '','' # c)"
    then show "endsWith ([] @ CHR '','' # J) (CHR '','' # c)"
    proof
      assume "J = c"
      then have "CHR '','' # J = [] @ CHR '','' # c" by simp
      then show ?thesis unfolding endsWith_iff append_Nil by blast
    next
      assume "endsWith J (CHR '','' # c)"
      then obtain u where "J = u @ CHR '','' # c" by (auto simp: endsWith_iff)
      then have "CHR '','' # J = (CHR '','' # u) @ CHR '','' # c" by simp
      then show ?thesis unfolding endsWith_iff append_Nil by blast
    qed
  qed
next
  case (Cons x t)
  then have x: "x \<noteq> CHR '',''" and t: "CHR '','' \<notin> set t" by auto
  have "endsWith ((x # t) @ CHR '','' # J) (CHR '','' # c) \<longleftrightarrow>
        endsWith (t @ CHR '','' # J) (CHR '','' # c)"
  proof
    assume "endsWith ((x # t) @ CHR '','' # J) (CHR '','' # c)"
    then obtain u where u: "x # t @ CHR '','' # J = u @ CHR '','' # c"
      by (auto simp: endsWith_iff)
    with x obtain u' where "u = x # u'" by (cases u) auto
    with u have "t @ CHR '','' # J = u' @ CHR '','' # c" by simp
    then show "endsWith (t @ CHR '','' # J) (CHR '','' # c)"
      unfolding endsWith_iff by blast
  next
    assume "endsWith (t @ CHR '','' # J) (CHR '','' # c)"
    then obtain u where "t @ CHR '','' # J = u @ CHR '','' # c"
      by (auto simp: endsWith_iff)
    then have "(x # t) @ CHR '','' # J = (x # u) @ CHR '','' # c" by simp
    then show "endsWith ((x # t) @ CHR '','' # J) (CHR '','' # c)"
      unfolding endsWith_iff by blast
  qed
  with Cons.IH [OF t] show ?case by simp
qed

lemma startsWith_set: "startsWith s p \<Longrightarrow> set p \<subseteq> set s"
  by (auto simp: startsWith_iff)

lemma endsWith_set: "endsWith s p \<Longrightarrow> set p \<subseteq> set s"
  by (auto simp: endsWith_iff)

lemma includesStr_set: "includesStr s p \<Longrightarrow> set p \<subseteq> set s"
proof (induction s)
  case Nil
  then show ?case by simp
next
  case (Cons c cs)
  then show ?case using startsWith_set [of "c # cs" p] by auto
qed

lemma hasComponent_single:
  "CHR '','' \<notin> set t \<Longrightarrow> hasComponent t c \<longleftrightarrow> t = c"
  using startsWith_set [of t "c @ '',''"] endsWith_set [of t "'','' @ c"]
    includesStr_set [of t "'','' @ c @ '',''"]
  by (auto simp: hasComponent_def)

lemma hasComponent_cons:
  assumes "CHR '','' \<notin> set t" and "CHR '','' \<notin> set c"
  shows "hasComponent (t @ CHR '','' # J) c \<longleftrightarrow> t = c \<or> hasComponent J c"
proof -
  have "t @ CHR '','' # J \<noteq> c"
    using assms(2) by auto
  moreover have "startsWith (t @ CHR '','' # J) (c @ '','') \<longleftrightarrow> t = c"
    using assms by (rule startsWith_token)
  moreover have "endsWith (t @ CHR '','' # J) ('','' @ c) \<longleftrightarrow> J = c \<or> endsWith J ('','' @ c)"
    using endsWith_token [OF assms(1)] by simp
  moreover have "includesStr (t @ CHR '','' # J) ('','' @ c @ '','') \<longleftrightarrow>
      startsWith J (c @ '','') \<or> includesStr J ('','' @ c @ '','')"
    using includesStr_token [OF assms(1), of J "c @ '',''"] by simp
  ultimately show ?thesis
    unfolding hasComponent_def by blast
qed

lemma splitComma_cases:
  "(CHR '','' \<notin> set K \<and> splitComma K = [K]) \<or>
   (\<exists>t J. K = t @ CHR '','' # J \<and> CHR '','' \<notin> set t \<and> splitComma K = t # splitComma J)"
proof (induction K)
  case Nil
  then show ?case by simp
next
  case (Cons x K)
  show ?case
  proof (cases "x = CHR '',''")
    case True
    then have "x # K = [] @ CHR '','' # K \<and> CHR '','' \<notin> set [] \<and> splitComma (x # K) = [] # splitComma K"
      by simp
    then show ?thesis by blast
  next
    case False
    from Cons.IH show ?thesis
    proof
      assume "CHR '','' \<notin> set K \<and> splitComma K = [K]"
      with False show ?thesis by simp
    next
      assume "\<exists>t J. K = t @ CHR '','' # J \<and> CHR '','' \<notin> set t \<and> splitComma K = t # splitComma J"
      then obtain t J where "K = t @ CHR '','' # J" "CHR '','' \<notin> set t" "splitComma K = t # splitComma J"
        by blast
      with False have "x # K = (x # t) @ CHR '','' # J \<and> CHR '','' \<notin> set (x # t) \<and>
          splitComma (x # K) = (x # t) # splitComma J"
        by simp
      then show ?thesis by blast
    qed
  qed
qed

lemma hasComponent_iff_token:
  "CHR '','' \<notin> set c \<Longrightarrow> hasComponent K c \<longleftrightarrow> c \<in> set (splitComma K)"
proof (induction K rule: length_induct)
  case (1 K)
  from splitComma_cases [of K] show ?case
  proof
    assume "CHR '','' \<notin> set K \<and> splitComma K = [K]"
    then show ?thesis using hasComponent_single [of K c] by auto
  next
    assume "\<exists>t J. K = t @ CHR '','' # J \<and> CHR '','' \<notin> set t \<and> splitComma K = t # splitComma J"
    then obtain t J where k: "K = t @ CHR '','' # J" and t: "CHR '','' \<notin> set t"
      and s: "splitComma K = t # splitComma J"
      by blast
    have "length J < length K" using k by simp
    with 1 have "hasComponent J c \<longleftrightarrow> c \<in> set (splitComma J)" by blast
    then show ?thesis
      using hasComponent_cons [OF t "1.prems", of J] k s by auto
  qed
qed

lemma beforeSeparator_whole: "\<not> includesStr n separator \<Longrightarrow> beforeSeparator n = n"
  by (induction n) simp_all

lemma plainName_beforeSeparator: "plainName n \<Longrightarrow> beforeSeparator n = n"
  by (simp add: plainName_def beforeSeparator_whole)

lemma beforeSeparator_cut: "beforeSeparator (''a'' @ separator @ ''b'') = ''a''"
  by (simp add: separator_def)

subsection \<open>What the mutations keep of the filter invariant\<close>

text \<open>
  The effect of each mutation on the store, the entities and one memoized list.
\<close>

lemma addComponentToEntity_fields:
  "\<not> truthyAt (heap w r) n \<Longrightarrow>
   heap (addComponentToEntity w r n d) = (heap w)(r := (heap w r)(n \<mapsto> defaultData d)) \<and>
   entities (addComponentToEntity w r n d) = entities w \<and>
   filters (addComponentToEntity w r n d) K =
     map_option (addToFilter K ((heap w r)(n \<mapsto> defaultData d)) r) (filters w K)"
  by (simp add: addComponentToEntity_def Let_def)

lemma u_removeComponent_fields:
  "u_removeComponent w (Some r) n = Inr w' \<Longrightarrow>
   heap w' = (heap w)(r := (heap w r)(n := None)) \<and> entities w' = entities w \<and>
   filters w' K = map_option (removeFromFilter K ((heap w r)(n := None)) r n) (filters w K) \<and>
   removalsEntities w' = removalsEntities w \<and> removalsComponents w' = removalsComponents w"
  by (auto simp: u_removeComponent_def Let_def)

lemma u_removeEntity_fields:
  "u_removeEntity w (Some r) = Inr w' \<Longrightarrow>
   r \<in> set (entities w) \<and> heap w' = heap w \<and> entities w' = remove1 r (entities w) \<and>
   filters w' K = map_option (remove1 r) (filters w K)"
  using indexOf_neg_iff [of "entities w" r] removeItems_indexOf [of r "entities w"]
  by (auto simp: u_removeEntity_def Let_def dropFromFilter_remove1 [abs_def] split: if_splits)

lemma elemAt_in_set: "elemAt xs i = Some x \<Longrightarrow> x \<in> set xs"
  by (auto simp: elemAt_def split: if_splits)

text \<open>
  The loop of \<^verbatim>\<open>_removeComponent\<close> does a full re-match in effect, for a component
  name that has no comma, does not start with \<open>!\<close> and is not inherited, and a list
  whose members matched before.
\<close>

lemma removeFromFilter_eq:
  assumes n: "CHR '','' \<notin> set n" "\<not> startsWith n ''!''" "\<not> inherited n"
    and m: "r \<in> set l \<longrightarrow> matchesFilter K e []"
  shows "removeFromFilter K (e(n := None)) r n l =
     (if matchesFilter K (e(n := None)) [] then (if r \<in> set l then l else l @ [r])
      else remove1 r l)"
proof (cases "matchesFilter K (e(n := None)) []")
  case True
  have "\<not> hasComponent K n"
  proof
    assume "hasComponent K n"
    then have "n \<in> set (splitComma K)"
      using hasComponent_iff_token [OF n(1)] by simp
    then have "truthyAt (e(n := None)) n"
      using True n(2) matchesTokens_positive [of "splitComma K" "e(n := None)" "[]" n]
      by (simp add: matchesFilter_def)
    then show False using n(3) by (simp add: truthyAt_delete)
  qed
  with True show ?thesis by (simp add: removeFromFilter_def)
next
  case False
  show ?thesis
  proof (cases "hasComponent K n")
    case True
    with False show ?thesis
      using dropFromFilter_remove1 [of r l]
      by (simp add: removeFromFilter_def dropFromFilter_def)
  next
    case nh: False
    have "r \<notin> set l"
    proof
      assume "r \<in> set l"
      with m have "matchesTokens (splitComma K) e []"
        by (simp add: matchesFilter_def)
      then have "n \<in> set (splitComma K)"
        using False matchesTokens_without [OF n(2,3), of "splitComma K" e]
        by (simp add: matchesFilter_def)
      with nh show False
        using hasComponent_iff_token [OF n(1)] by simp
    qed
    with False nh show ?thesis
      by (simp add: removeFromFilter_def remove1_idem)
  qed
qed

lemma filterTracks_None: "filters w K = None \<Longrightarrow> filterTracks w K"
  by (simp add: filterTracks_def)

lemma filterTracks_Some:
  "filters w K = Some l \<Longrightarrow>
   filterTracks w K \<longleftrightarrow>
     distinct l \<and>
     (\<forall>r \<in> set l. r \<in> set (entities w) \<and> matchesFilter K (heap w r) []) \<and>
     (\<forall>r \<in> set (entities w). matchesFilter K (heap w r) [] \<longrightarrow> r \<in> set l \<or> heap w r = Map.empty)"
  by (auto simp: filterTracks_def list_all_iff)

lemma filterTracks_same:
  "filters w' K = filters w K \<Longrightarrow> heap w' = heap w \<Longrightarrow> entities w' = entities w \<Longrightarrow>
   filterTracks w' K = filterTracks w K"
  by (simp add: filterTracks_def cong: option.case_cong)

lemma filterTracks_createWorld: "filterTracks createWorld K"
  by (simp add: filterTracks_def createWorld_def)

lemma filterTracks_createEntity:
  assumes "wellFormed w" and "filterTracks w K"
  shows "filterTracks (fst (createEntity w)) K"
proof (cases "filters w K")
  case None
  then show ?thesis by (simp add: filterTracks_def createEntity_def Let_def)
next
  case (Some l)
  have fresh: "nextRef w \<notin> set (entities w)"
    using assms(1) by (auto simp: wellFormed_def list_all_iff)
  have f: "filters (fst (createEntity w)) K = Some l"
      "heap (fst (createEntity w)) = (heap w)(nextRef w := Map.empty)"
      "entities (fst (createEntity w)) = entities w @ [nextRef w]"
    using Some by (simp_all add: createEntity_def Let_def)
  show ?thesis
    using assms(2) fresh unfolding filterTracks_Some [OF Some] filterTracks_Some [OF f(1)] f(2,3)
    by auto
qed

lemma filterTracks_getEntities:
  assumes "distinct (entities w)" and "filterTracks w K"
  shows "filterTracks (fst (getEntities w ns lt)) K"
proof (cases "K = joinComma ns \<and> getProp (filters w) K = Missing")
  case False
  then have "filters (fst (getEntities w ns lt)) K = filters w K"
    by (cases "getProp (filters w) (joinComma ns)") (auto simp: getEntities_filters_any)
  then show ?thesis
    using assms(2) filterTracks_same [of "fst (getEntities w ns lt)" K w]
    by (simp add: getEntities_heap getEntities_entities)
next
  case True
  then have f: "filters (fst (getEntities w ns lt)) K = Some (scan w K)"
    by (auto simp: getEntities_filters_any)
  show ?thesis
    unfolding filterTracks_Some [OF f] getEntities_heap getEntities_entities
    using assms(1) by (auto simp: scan_def)
qed

lemma filterTracks_addComponentToEntity:
  assumes "r \<in> set (entities w)" and "filterTracks w K"
  shows "filterTracks (addComponentToEntity w r n d) K"
proof (cases "truthyAt (heap w r) n")
  case True
  then show ?thesis using assms(2) by (simp add: addComponentToEntity_def)
next
  case False
  note f = addComponentToEntity_fields [OF False, of d K]
  show ?thesis
  proof (cases "filters w K")
    case None
    with f show ?thesis by (simp add: filterTracks_def)
  next
    case (Some l)
    define ent where "ent = (heap w r)(n \<mapsto> defaultData d)"
    have ne: "ent \<noteq> Map.empty"
      by (simp add: ent_def)
    have f': "filters (addComponentToEntity w r n d) K = Some (addToFilter K ent r l)"
      "heap (addComponentToEntity w r n d) = (heap w)(r := ent)"
      "entities (addComponentToEntity w r n d) = entities w"
      using f Some by (simp_all add: ent_def)
    show ?thesis
      using assms ne unfolding filterTracks_Some [OF Some] filterTracks_Some [OF f'(1)] f'(2,3)
      by (auto simp: addToFilter_eq)
  qed
qed

lemma filterTracks_u_removeComponent:
  assumes n: "CHR '','' \<notin> set n" "\<not> startsWith n ''!''" "\<not> inherited n"
    and r: "r \<in> set (entities w)" and c: "filterTracks w K"
    and u: "u_removeComponent w (Some r) n = Inr w'"
  shows "filterTracks w' K"
proof (cases "filters w K")
  case None
  with u_removeComponent_fields [OF u, of K] show ?thesis
    by (simp add: filterTracks_def)
next
  case (Some l)
  define ent where "ent = (heap w r)(n := None)"
  have m: "r \<in> set l \<longrightarrow> matchesFilter K (heap w r) []"
    using c by (simp add: filterTracks_Some [OF Some])
  note e = removeFromFilter_eq [OF n m, folded ent_def]
  have f': "filters w' K = Some (removeFromFilter K ent r n l)"
      "heap w' = (heap w)(r := ent)" "entities w' = entities w"
    using u_removeComponent_fields [OF u, of K] Some by (simp_all add: ent_def)
  show ?thesis
    using c r unfolding filterTracks_Some [OF Some] filterTracks_Some [OF f'(1)] f'(2,3) e
    by auto
qed

lemma filterTracks_removeComponentFromEntity:
  assumes n: "CHR '','' \<notin> set n" "\<not> startsWith n ''!''" "\<not> inherited n"
    and r: "r \<in> set (entities w)" and c: "filterTracks w K"
    and u: "removeComponentFromEntity w r n dfr = Inr w'"
  shows "filterTracks w' K"
proof (cases "truthyAt (heap w r) n \<and> \<not> dfr")
  case False
  then have "filters w' K = filters w K \<and> heap w' = heap w \<and> entities w' = entities w"
    using u by (auto simp: removeComponentFromEntity_def Let_def split: if_splits)
  with c show ?thesis using filterTracks_same [of w' K w] by simp
next
  case True
  define w1 where "w1 = w\<lparr> removed := (\<lambda>k. map_option (componentRemoved k (heap w r) r n) (removed w k)) \<rparr>"
  have "u_removeComponent w1 (Some r) n = Inr w'"
    using u True by (simp add: removeComponentFromEntity_def Let_def w1_def)
  moreover have "filterTracks w1 K" "r \<in> set (entities w1)"
    using c r filterTracks_same [of w1 K w] by (simp_all add: w1_def)
  ultimately show ?thesis
    using filterTracks_u_removeComponent [OF n] by blast
qed

lemma filterTracks_u_removeEntity:
  assumes "distinct (entities w)" and "filterTracks w K" and "u_removeEntity w (Some r) = Inr w'"
  shows "filterTracks w' K \<and> distinct (entities w')"
proof -
  note f = u_removeEntity_fields [OF assms(3), of K]
  show ?thesis
  proof (cases "filters w K")
    case None
    with f assms(1) show ?thesis by (simp add: filterTracks_def)
  next
    case (Some l)
    have f': "filters w' K = Some (remove1 r l)" "heap w' = heap w"
        "entities w' = remove1 r (entities w)"
      using f Some by simp_all
    have "filterTracks w' K"
      using assms(1,2) unfolding filterTracks_Some [OF Some] filterTracks_Some [OF f'(1)] f'(2,3)
      by auto
    then show ?thesis using f'(3) assms(1) by simp
  qed
qed

lemma filterTracks_removeEntity:
  assumes "distinct (entities w)" and "filterTracks w K" and "removeEntity w r dfr = Inr w'"
  shows "filterTracks w' K"
proof (cases "indexOf (entities w) r < 0 \<or> dfr")
  case True
  then have "filters w' K = filters w K \<and> heap w' = heap w \<and> entities w' = entities w"
    using assms(3) by (auto simp: removeEntity_def Let_def split: if_splits)
  with assms(2) show ?thesis using filterTracks_same [of w' K w] by simp
next
  case False
  define w1 where "w1 = w\<lparr> removed := (\<lambda>k. map_option (entityRemoved k (heap w r) r) (removed w k)) \<rparr>"
  have "u_removeEntity w1 (Some r) = Inr w'"
    using False assms(3) by (simp add: removeEntity_def Let_def w1_def)
  moreover have "filterTracks w1 K" "distinct (entities w1)"
    using assms(1,2) filterTracks_same [of w1 K w] by (simp_all add: w1_def)
  ultimately show ?thesis
    using filterTracks_u_removeEntity by blast
qed

lemma filterTracks_flushComponents:
  assumes "\<forall>(i, n) \<in> set ks. plainName n"
    and "filterTracks w K" and "distinct (entities w)"
    and "flushComponents w ks = Inr w'"
  shows "filterTracks w' K \<and> distinct (entities w') \<and> removalsEntities w' = removalsEntities w"
  using assms
proof (induction ks arbitrary: w)
  case Nil
  then show ?case by simp
next
  case (Cons k ks)
  obtain i n where k: "k = (i, n)" by (cases k)
  from Cons.prems(4) obtain w1 where
    u0: "u_removeComponent w (elemAt (entities w) i) (beforeSeparator n) = Inr w1"
    and f: "flushComponents w1 ks = Inr w'"
    by (auto simp: k split: sum.splits)
  have pn: "plainName n"
    using Cons.prems(1) k by auto
  have u: "u_removeComponent w (elemAt (entities w) i) n = Inr w1"
    using u0 plainName_beforeSeparator [OF pn] by simp
  from u obtain r where r: "elemAt (entities w) i = Some r"
    by (cases "elemAt (entities w) i") (auto simp: u_removeComponent_def)
  have n: "CHR '','' \<notin> set n" "\<not> startsWith n ''!''" "\<not> inherited n"
    using pn by (simp_all add: plainName_def)
  have c1: "filterTracks w1 K"
    using filterTracks_u_removeComponent [OF n elemAt_in_set [OF r] Cons.prems(2)] u r by simp
  have e1: "entities w1 = entities w" "removalsEntities w1 = removalsEntities w"
    using u_removeComponent_fields [of w r n w1 K] u r by simp_all
  have "filterTracks w' K \<and> distinct (entities w') \<and> removalsEntities w' = removalsEntities w1"
    using Cons.IH [OF _ c1 _ f] Cons.prems(1,3) e1 by simp
  then show ?case using e1 by simp
qed

lemma filterTracks_flushEntities:
  assumes "filterTracks w K" and "distinct (entities w)" and "flushEntities w ks = Inr w'"
  shows "filterTracks w' K \<and> distinct (entities w')"
  using assms
proof (induction ks arbitrary: w)
  case Nil
  then show ?case by simp
next
  case (Cons i ks)
  from Cons.prems(3) obtain w1 where
    u: "u_removeEntity w (elemAt (entities w) i) = Inr w1" and f: "flushEntities w1 ks = Inr w'"
    by (auto split: sum.splits)
  from u obtain r where r: "elemAt (entities w) i = Some r"
    by (cases "elemAt (entities w) i") (auto simp: u_removeEntity_def)
  have "filterTracks w1 K \<and> distinct (entities w1)"
    using filterTracks_u_removeEntity [OF Cons.prems(2,1)] u r by simp
  then show ?case using Cons.IH [OF _ _ f] by simp
qed

lemma filterTracks_cleanup:
  assumes "\<forall>(i, n) \<in> set (removalsComponents w). plainName n"
    and "filterTracks w K" and "distinct (entities w)"
    and "cleanup w = Inr w'"
  shows "filterTracks w' K"
proof -
  define w0 where "w0 = emptyListeners w"
  have 0: "filterTracks w0 K" "distinct (entities w0)" "removalsComponents w0 = removalsComponents w"
    using assms(2,3) filterTracks_same [of w0 K w] by (simp_all add: w0_def emptyListeners_def)
  from assms(4) obtain w1 where 1: "flushComponents w0 (removalsComponents w0) = Inr w1"
    by (auto simp: cleanup_def Let_def w0_def split: sum.splits)
  with assms(4) obtain w3 where
    3: "flushEntities (w1\<lparr> removalsComponents := [] \<rparr>) (removalsEntities (w1\<lparr> removalsComponents := [] \<rparr>)) = Inr w3"
    and w': "w' = w3\<lparr> removalsEntities := [] \<rparr>"
    by (auto simp: cleanup_def Let_def w0_def split: sum.splits)
  have c1: "filterTracks w1 K \<and> distinct (entities w1)"
    using filterTracks_flushComponents [OF _ 0(1,2) 1] assms(1) 0(3) by simp
  then have "filterTracks (w1\<lparr> removalsComponents := [] \<rparr>) K" "distinct (entities (w1\<lparr> removalsComponents := [] \<rparr>))"
    using filterTracks_same [of "w1\<lparr> removalsComponents := [] \<rparr>" K w1] by simp_all
  then have "filterTracks w3 K"
    using filterTracks_flushEntities [OF _ _ 3] by simp
  then show ?thesis
    using filterTracks_same [of w' K w3] by (simp add: w')
qed

subsection \<open>Worlds built through the interface\<close>

text \<open>
  In every world built through the interface the entities are pairwise distinct, every
  memoized list is as the mutations keep it (\<open>filterTracks\<close>), and the names in the
  queue of deferred component removals are plain.
\<close>

lemma queuePlain_iff:
  "queuePlain w \<longleftrightarrow> (\<forall>(i, n) \<in> set (removalsComponents w). plainName n)"
  by (auto simp: queuePlain_def list_all_iff)

lemma getEntities_removalsComponents:
  "removalsComponents (fst (getEntities w ns lt)) = removalsComponents w"
  by (cases lt; (cases "the lt")?)
     (simp_all add: getEntities_def Let_def split: lookup.split)

lemma u_removeComponent_removalsComponents:
  "u_removeComponent w e n = Inr w' \<Longrightarrow> removalsComponents w' = removalsComponents w"
  by (cases e) (auto simp: u_removeComponent_def Let_def)

lemma u_removeEntity_removalsComponents:
  "u_removeEntity w e = Inr w' \<Longrightarrow> removalsComponents w' = removalsComponents w"
  by (cases e) (auto simp: u_removeEntity_def Let_def split: if_splits)

lemma removeComponentFromEntity_queuePlain:
  assumes "queuePlain w" and "plainName n" and "removeComponentFromEntity w r n dfr = Inr w'"
  shows "queuePlain w'"
proof (cases "truthyAt (heap w r) n")
  case False
  with assms(3) have "w' = w" by (simp add: removeComponentFromEntity_def)
  with assms(1) show ?thesis by simp
next
  case True
  show ?thesis
  proof (cases dfr)
    case True
    with \<open>truthyAt (heap w r) n\<close> assms(3)
    have "set (removalsComponents w') \<subseteq> insert (indexOf (entities w) r, n) (set (removalsComponents w))"
      by (auto simp: removeComponentFromEntity_def Let_def split: if_splits)
    with assms(1,2) show ?thesis
      by (auto simp: queuePlain_def list_all_iff)
  next
    case False
    with \<open>truthyAt (heap w r) n\<close> assms(3)
    have "removalsComponents w' = removalsComponents w"
      using u_removeComponent_removalsComponents
      by (auto simp: removeComponentFromEntity_def Let_def)
    with assms(1) show ?thesis by (simp add: queuePlain_def)
  qed
qed

lemma removeEntity_removalsComponents:
  assumes "removeEntity w r dfr = Inr w'"
  shows "removalsComponents w' = removalsComponents w"
proof (cases "indexOf (entities w) r < 0")
  case True
  with assms show ?thesis by (simp add: removeEntity_def)
next
  case False
  show ?thesis
  proof (cases dfr)
    case True
    with False assms show ?thesis
      by (auto simp: removeEntity_def Let_def split: if_splits)
  next
    case d: False
    with False assms show ?thesis
      using u_removeEntity_removalsComponents
      by (auto simp: removeEntity_def Let_def)
  qed
qed

lemma flushEntities_removalsComponents:
  "flushEntities w ks = Inr w' \<Longrightarrow> removalsComponents w' = removalsComponents w"
proof (induction ks arbitrary: w)
  case Nil
  then show ?case by simp
next
  case (Cons k ks)
  from Cons.prems obtain w1 where 1: "u_removeEntity w (elemAt (entities w) k) = Inr w1"
    and 2: "flushEntities w1 ks = Inr w'"
    by (auto split: sum.splits)
  from Cons.IH [OF 2] u_removeEntity_removalsComponents [OF 1] show ?case by simp
qed

lemma cleanup_removalsComponents:
  assumes "cleanup w = Inr w'"
  shows "removalsComponents w' = []"
proof -
  from assms obtain w1 w3 where
    "flushEntities (w1\<lparr> removalsComponents := [] \<rparr>) (removalsEntities (w1\<lparr> removalsComponents := [] \<rparr>)) = Inr w3"
    and "w' = w3\<lparr> removalsEntities := [] \<rparr>"
    by (auto simp: cleanup_def Let_def split: sum.splits)
  then show ?thesis
    using flushEntities_removalsComponents by fastforce
qed

lemma wellFormed_resetStats: "wellFormed (resetStats w) = wellFormed w"
  by (simp add: wellFormed_def resetStats_def)

lemma filterTracks_resetStats: "filterTracks (resetStats w) K = filterTracks w K"
  by (rule filterTracks_same) (simp_all add: resetStats_def)

lemma queuePlain_same: "removalsComponents w' = removalsComponents w \<Longrightarrow> queuePlain w' = queuePlain w"
  by (simp add: queuePlain_def)

lemma built_invariants:
  "built w \<Longrightarrow> wellFormed w \<and> (\<forall>K. filterTracks w K) \<and> queuePlain w"
proof (induction rule: built.induct)
  case created
  have "queuePlain createWorld"
    by (simp add: queuePlain_def createWorld_def)
  then show ?case
    by (simp add: wellFormed_createWorld filterTracks_createWorld)
next
  case (entity w)
  have "queuePlain (fst (createEntity w)) = queuePlain w"
    by (rule queuePlain_same) (simp add: createEntity_def Let_def)
  with entity show ?case
    by (simp add: wellFormed_createEntity filterTracks_createEntity)
next
  case (component w r n d)
  have "queuePlain (addComponentToEntity w r n d) = queuePlain w"
    by (rule queuePlain_same) (simp add: addComponentToEntity_def Let_def)
  with component show ?case
    by (simp add: wellFormed_addComponentToEntity filterTracks_addComponentToEntity)
next
  case (query w ns lt)
  then have "distinct (entities w)" by (simp add: wellFormed_def)
  moreover have "queuePlain (fst (getEntities w ns lt)) = queuePlain w"
    by (rule queuePlain_same) (rule getEntities_removalsComponents)
  ultimately show ?case
    using query by (simp add: wellFormed_getEntities filterTracks_getEntities)
next
  case (componentRemoval w r n dfr w')
  then have p: "CHR '','' \<notin> set n" "\<not> startsWith n ''!''" "\<not> inherited n"
    by (simp_all add: plainName_def)
  from componentRemoval show ?case
    using wellFormed_removeComponentFromEntity [of w r n dfr w']
      filterTracks_removeComponentFromEntity [OF p, of r w _ dfr w']
      removeComponentFromEntity_queuePlain [of w n r dfr w']
    by blast
next
  case (entityRemoval w r dfr w')
  then have "distinct (entities w)" by (simp add: wellFormed_def)
  moreover have "queuePlain w' = queuePlain w"
    by (rule queuePlain_same) (rule removeEntity_removalsComponents [OF entityRemoval(2)])
  ultimately show ?case
    using entityRemoval wellFormed_removeEntity [of w r dfr w']
      filterTracks_removeEntity [of w _ r dfr w']
    by blast
next
  case (frame w w')
  then have d: "distinct (entities w)" by (simp add: wellFormed_def)
  from frame have q: "\<forall>(i, n) \<in> set (removalsComponents w). plainName n"
    by (simp add: queuePlain_iff)
  have "queuePlain w'"
    using cleanup_removalsComponents [OF frame(2)] by (simp add: queuePlain_def)
  then show ?case
    using frame wellFormed_cleanup [of w w'] filterTracks_cleanup [OF q _ d frame(2)]
    by blast
next
  case (stats w)
  have "queuePlain (resetStats w) = queuePlain w"
    by (rule queuePlain_same) (simp add: resetStats_def)
  with stats show ?case
    by (simp add: wellFormed_resetStats filterTracks_resetStats)
qed

lemma built_filterDistinct:
  assumes "built w"
  shows "filterDistinct w K"
proof (cases "filters w K")
  case None
  then show ?thesis by (simp add: filterDistinct_def)
next
  case (Some l)
  from built_invariants [OF assms] have "filterTracks w K" by simp
  with Some show ?thesis by (simp add: filterDistinct_def filterTracks_Some)
qed

subsection \<open>Negated filters\<close>






subsection \<open>The filter invariant under the mutations\<close>

text \<open>
  The query and the sibling mutations keep the invariant of the specification itself,
  for an entity of the world and a component name that has no comma, does not start
  with \<open>!\<close> and is not inherited: the first query scans, and
  \<^verbatim>\<open>addComponentToEntity\<close>, \<^verbatim>\<open>_removeComponent\<close> and \<^verbatim>\<open>_removeEntity\<close>
  bring the memoized lists up to date. The cleanup keeps it when the names in its queue
  are plain.
\<close>

lemma filterCorrect_Some:
  "filters w K = Some l \<Longrightarrow>
   filterCorrect w K \<longleftrightarrow>
     distinct l \<and> set l = {r \<in> set (entities w). matchesFilter K (heap w r) []}"
  by (auto simp: filterCorrect_def)

lemma filterCorrect_same:
  "filters w' K = filters w K \<Longrightarrow> heap w' = heap w \<Longrightarrow> entities w' = entities w \<Longrightarrow>
   filterCorrect w' K = filterCorrect w K"
  by (simp add: filterCorrect_def cong: option.case_cong)

lemma filterCorrect_tracks: "filterCorrect w K \<Longrightarrow> filterTracks w K"
  by (cases "filters w K") (auto simp: filterTracks_None filterTracks_Some filterCorrect_Some)

lemma getEntities_keeps_filter:
  assumes "distinct (entities w)" and "filterCorrect w K"
  shows "filterCorrect (fst (getEntities w ns lt)) K"
proof (cases "K = joinComma ns \<and> getProp (filters w) K = Missing")
  case False
  then have "filters (fst (getEntities w ns lt)) K = filters w K"
    by (cases "getProp (filters w) (joinComma ns)") (auto simp: getEntities_filters_any)
  then show ?thesis
    using assms(2) filterCorrect_same [of "fst (getEntities w ns lt)" K w]
    by (simp add: getEntities_heap getEntities_entities)
next
  case True
  then have f: "filters (fst (getEntities w ns lt)) K = Some (scan w K)"
    by (auto simp: getEntities_filters_any)
  show ?thesis
    unfolding filterCorrect_Some [OF f] getEntities_heap getEntities_entities
    using assms(1) by (auto simp: scan_def)
qed

lemma addComponentToEntity_keeps_filter:
  assumes "r \<in> set (entities w)" and "filterCorrect w K"
  shows "filterCorrect (addComponentToEntity w r n d) K"
proof (cases "truthyAt (heap w r) n")
  case True
  then show ?thesis using assms(2) by (simp add: addComponentToEntity_def)
next
  case False
  note f = addComponentToEntity_fields [OF False, of d K]
  show ?thesis
  proof (cases "filters w K")
    case None
    with f show ?thesis by (simp add: filterCorrect_def)
  next
    case (Some l)
    define ent where "ent = (heap w r)(n \<mapsto> defaultData d)"
    have f': "filters (addComponentToEntity w r n d) K = Some (addToFilter K ent r l)"
      "heap (addComponentToEntity w r n d) = (heap w)(r := ent)"
      "entities (addComponentToEntity w r n d) = entities w"
      using f Some by (simp_all add: ent_def)
    show ?thesis
      using assms unfolding filterCorrect_Some [OF Some] filterCorrect_Some [OF f'(1)] f'(2,3)
      by (auto simp: addToFilter_eq)
  qed
qed

lemma u_removeComponent_keeps_filter:
  assumes n: "CHR '','' \<notin> set n" "\<not> startsWith n ''!''" "\<not> inherited n"
    and r: "r \<in> set (entities w)" and c: "filterCorrect w K"
    and u: "u_removeComponent w (Some r) n = Inr w'"
  shows "filterCorrect w' K"
proof (cases "filters w K")
  case None
  with u_removeComponent_fields [OF u, of K] show ?thesis
    by (simp add: filterCorrect_def)
next
  case (Some l)
  define ent where "ent = (heap w r)(n := None)"
  have m: "r \<in> set l \<longrightarrow> matchesFilter K (heap w r) []"
    using c by (simp add: filterCorrect_Some [OF Some])
  note e = removeFromFilter_eq [OF n m, folded ent_def]
  have f': "filters w' K = Some (removeFromFilter K ent r n l)"
      "heap w' = (heap w)(r := ent)" "entities w' = entities w"
    using u_removeComponent_fields [OF u, of K] Some by (simp_all add: ent_def)
  show ?thesis
    using c r unfolding filterCorrect_Some [OF Some] filterCorrect_Some [OF f'(1)] f'(2,3) e
    by auto
qed

lemma removeComponentFromEntity_keeps_filter:
  assumes n: "CHR '','' \<notin> set n" "\<not> startsWith n ''!''" "\<not> inherited n"
    and r: "r \<in> set (entities w)" and c: "filterCorrect w K"
    and u: "removeComponentFromEntity w r n False = Inr w'"
  shows "filterCorrect w' K"
proof (cases "truthyAt (heap w r) n")
  case False
  with u c show ?thesis by (simp add: removeComponentFromEntity_def)
next
  case True
  define w1 where "w1 = w\<lparr> removed := (\<lambda>k. map_option (componentRemoved k (heap w r) r n) (removed w k)) \<rparr>"
  have "u_removeComponent w1 (Some r) n = Inr w'"
    using u True by (simp add: removeComponentFromEntity_def Let_def w1_def)
  moreover have "filterCorrect w1 K" "r \<in> set (entities w1)"
    using c r filterCorrect_same [of w1 K w] by (simp_all add: w1_def)
  ultimately show ?thesis
    using u_removeComponent_keeps_filter [OF n] by blast
qed

lemma u_removeEntity_keeps_filter:
  assumes "distinct (entities w)" and "filterCorrect w K" and "u_removeEntity w (Some r) = Inr w'"
  shows "filterCorrect w' K \<and> distinct (entities w')"
proof -
  note f = u_removeEntity_fields [OF assms(3), of K]
  show ?thesis
  proof (cases "filters w K")
    case None
    with f assms(1) show ?thesis by (simp add: filterCorrect_def)
  next
    case (Some l)
    have f': "filters w' K = Some (remove1 r l)" "heap w' = heap w"
        "entities w' = remove1 r (entities w)"
      using f Some by simp_all
    have "filterCorrect w' K"
      using assms(1,2) unfolding filterCorrect_Some [OF Some] filterCorrect_Some [OF f'(1)] f'(2,3)
      by auto
    then show ?thesis using f'(3) assms(1) by simp
  qed
qed

lemma removeEntity_keeps_filter:
  assumes "distinct (entities w)" and "filterCorrect w K" and "removeEntity w r False = Inr w'"
  shows "filterCorrect w' K"
proof (cases "indexOf (entities w) r < 0")
  case True
  with assms show ?thesis by (simp add: removeEntity_def Let_def)
next
  case False
  define w1 where "w1 = w\<lparr> removed := (\<lambda>k. map_option (entityRemoved k (heap w r) r) (removed w k)) \<rparr>"
  have "u_removeEntity w1 (Some r) = Inr w'"
    using False assms(3) by (simp add: removeEntity_def Let_def w1_def)
  moreover have "filterCorrect w1 K" "distinct (entities w1)"
    using assms(1,2) filterCorrect_same [of w1 K w] by (simp_all add: w1_def)
  ultimately show ?thesis
    using u_removeEntity_keeps_filter by blast
qed

lemma flushComponents_keeps_filter:
  assumes "\<forall>(i, n) \<in> set ks. plainName n"
    and "filterCorrect w K" and "distinct (entities w)"
    and "flushComponents w ks = Inr w'"
  shows "filterCorrect w' K \<and> distinct (entities w') \<and> removalsEntities w' = removalsEntities w"
  using assms
proof (induction ks arbitrary: w)
  case Nil
  then show ?case by simp
next
  case (Cons k ks)
  obtain i n where k: "k = (i, n)" by (cases k)
  from Cons.prems(4) obtain w1 where
    u0: "u_removeComponent w (elemAt (entities w) i) (beforeSeparator n) = Inr w1"
    and f: "flushComponents w1 ks = Inr w'"
    by (auto simp: k split: sum.splits)
  have pn: "plainName n"
    using Cons.prems(1) k by auto
  have u: "u_removeComponent w (elemAt (entities w) i) n = Inr w1"
    using u0 plainName_beforeSeparator [OF pn] by simp
  from u obtain r where r: "elemAt (entities w) i = Some r"
    by (cases "elemAt (entities w) i") (auto simp: u_removeComponent_def)
  have n: "CHR '','' \<notin> set n" "\<not> startsWith n ''!''" "\<not> inherited n"
    using pn by (simp_all add: plainName_def)
  have c1: "filterCorrect w1 K"
    using u_removeComponent_keeps_filter [OF n elemAt_in_set [OF r] Cons.prems(2)] u r by simp
  have e1: "entities w1 = entities w" "removalsEntities w1 = removalsEntities w"
    using u_removeComponent_fields [of w r n w1 K] u r by simp_all
  have "filterCorrect w' K \<and> distinct (entities w') \<and> removalsEntities w' = removalsEntities w1"
    using Cons.IH [OF _ c1 _ f] Cons.prems(1,3) e1 by simp
  then show ?case using e1 by simp
qed

lemma flushEntities_keeps_filter:
  assumes "filterCorrect w K" and "distinct (entities w)" and "flushEntities w ks = Inr w'"
  shows "filterCorrect w' K \<and> distinct (entities w')"
  using assms
proof (induction ks arbitrary: w)
  case Nil
  then show ?case by simp
next
  case (Cons i ks)
  from Cons.prems(3) obtain w1 where
    u: "u_removeEntity w (elemAt (entities w) i) = Inr w1" and f: "flushEntities w1 ks = Inr w'"
    by (auto split: sum.splits)
  from u obtain r where r: "elemAt (entities w) i = Some r"
    by (cases "elemAt (entities w) i") (auto simp: u_removeEntity_def)
  have "filterCorrect w1 K \<and> distinct (entities w1)"
    using u_removeEntity_keeps_filter [OF Cons.prems(2,1)] u r by simp
  then show ?case using Cons.IH [OF _ _ f] by simp
qed

lemma cleanup_keeps_filter:
  assumes "\<forall>(i, n) \<in> set (removalsComponents w). plainName n"
    and "filterCorrect w K" and "distinct (entities w)"
    and "cleanup w = Inr w'"
  shows "filterCorrect w' K"
proof -
  define w0 where "w0 = emptyListeners w"
  have 0: "filterCorrect w0 K" "distinct (entities w0)" "removalsComponents w0 = removalsComponents w"
    using assms(2,3) filterCorrect_same [of w0 K w] by (simp_all add: w0_def emptyListeners_def)
  from assms(4) obtain w1 where 1: "flushComponents w0 (removalsComponents w0) = Inr w1"
    by (auto simp: cleanup_def Let_def w0_def split: sum.splits)
  with assms(4) obtain w3 where
    3: "flushEntities (w1\<lparr> removalsComponents := [] \<rparr>) (removalsEntities (w1\<lparr> removalsComponents := [] \<rparr>)) = Inr w3"
    and w': "w' = w3\<lparr> removalsEntities := [] \<rparr>"
    by (auto simp: cleanup_def Let_def w0_def split: sum.splits)
  have c1: "filterCorrect w1 K \<and> distinct (entities w1)"
    using flushComponents_keeps_filter [OF _ 0(1,2) 1] assms(1) 0(3) by simp
  then have "filterCorrect (w1\<lparr> removalsComponents := [] \<rparr>) K" "distinct (entities (w1\<lparr> removalsComponents := [] \<rparr>))"
    using filterCorrect_same [of "w1\<lparr> removalsComponents := [] \<rparr>" K w1] by simp_all
  then have "filterCorrect w3 K"
    using flushEntities_keeps_filter [OF _ _ 3] by simp
  then show ?thesis
    using filterCorrect_same [of w' K w3] by (simp add: w')
qed

text \<open>
  \<^verbatim>\<open>createEntity\<close> keeps the invariant of a key that has a token which does not
  start with \<open>!\<close> and is not an inherited name: the new entity has no component and
  does not match such a key.
\<close>

lemma createEntity_keeps_filter:
  assumes "wellFormed w" and "t \<in> set (splitComma K)" and "\<not> startsWith t ''!''"
    and "\<not> inherited t" and "filterCorrect w K"
  shows "filterCorrect (fst (createEntity w)) K"
proof -
  have fresh: "nextRef w \<notin> set (entities w)"
    using assms(1) by (auto simp: wellFormed_def list_all_iff)
  have nm: "\<not> matchesFilter K Map.empty []"
    using matchesTokens_positive [of "splitComma K" Map.empty "[]" t] assms(2,3,4)
    by (auto simp: matchesFilter_def truthyAt_ordinary ownTruthy_def)
  have "set (filter (\<lambda>r. matchesFilter K (((heap w)(nextRef w := Map.empty)) r) []) (entities w @ [nextRef w]))
      = set (filter (\<lambda>r. matchesFilter K (heap w r) []) (entities w))"
    using fresh nm by auto
  then show ?thesis
    using assms(5)
    by (cases "filters w K") (simp_all add: filterCorrect_def createEntity_def Let_def)
qed

text \<open>
  C1 at a failing input. The key \<open>!y\<close> is queried in the empty world, then an
  entity is created. \<^verbatim>\<open>createEntity\<close> pushes the entity and touches no filter:
  the new entity has no component, so it matches \<open>!y\<close>, but the memoized list stays
  empty, the invariant is broken, and the next query returns the list without it.
\<close>

theorem createEntity_misses_negated_filter:
  "filterCorrect (fst (getEntities createWorld [''!y''] None)) ''!y'' \<and>
   snd (createEntity (fst (getEntities createWorld [''!y''] None))) = 0 \<and>
   entities (fst (createEntity (fst (getEntities createWorld [''!y''] None)))) = [0] \<and>
   matchesFilter ''!y'' (heap (fst (createEntity (fst (getEntities createWorld [''!y''] None)))) 0) [] \<and>
   filters (fst (createEntity (fst (getEntities createWorld [''!y''] None)))) ''!y'' = Some [] \<and>
   \<not> filterCorrect (fst (createEntity (fst (getEntities createWorld [''!y''] None)))) ''!y'' \<and>
   snd (getEntities (fst (createEntity (fst (getEntities createWorld [''!y''] None)))) [''!y''] None)
     = EntityList []"
  by (simp add: createWorld_def getEntities_def scan_def resultOf_def createEntity_def
      matchesFilter_def truthyAt_def getProp_def setProp_def inherited_def inheritedNames_def
      filterCorrect_def Let_def)

end
